theory Spec2Isabelle
  imports Complex_Main "HOL-Library.Sublist" "HOL-Library.Multiset"
begin

section \<open>Python values\<close>

text \<open>
  Strings are lists of \<^typ>\<open>char\<close>, each read as one code point in the range 0..255
  (ASCII and Latin-1, which covers the degree sign of the metric patterns).
  A decoded JSON document is a \<open>json\<close> value; a Python \<open>dict\<close> is an association list
  read with \<open>map_of\<close>; Python's \<open>None\<close> is \<open>JNull\<close>. A float is carried as the real
  number it denotes (no arithmetic is done on it; NaN and the infinities are left out).
\<close>

datatype json =
    JNull
  | JBool bool
  | JInt int
  | JFloat real
  | JStr string
  | JArr "json list"
  | JObj "(string \<times> json) list"

text \<open>The exceptions of the program; each carries the text that \<open>str(e)\<close> gives.\<close>

datatype exn =
    RuntimeError string
  | HTTPError string
  | AttributeError string
  | OtherError string

fun str_exn :: "exn \<Rightarrow> string" where
  "str_exn (RuntimeError m) = m"
| "str_exn (HTTPError m) = m"
| "str_exn (AttributeError m) = m"
| "str_exn (OtherError m) = m"

text \<open>Truth value of a Python object, as \<open>or\<close>, \<open>not\<close> and \<open>if\<close> test it.\<close>

fun truthy :: "json \<Rightarrow> bool" where
  "truthy JNull = False"
| "truthy (JBool b) = b"
| "truthy (JInt i) = (i \<noteq> 0)"
| "truthy (JFloat r) = (r \<noteq> 0)"
| "truthy (JStr s) = (s \<noteq> [])"
| "truthy (JArr xs) = (xs \<noteq> [])"
| "truthy (JObj kvs) = (kvs \<noteq> [])"

text \<open>\<open>a or b\<close>: the first operand when it is true, else the second.\<close>

definition py_or :: "json \<Rightarrow> json \<Rightarrow> json" where
  "py_or a b = (if truthy a then a else b)"

text \<open>\<open>d.get(k)\<close> and \<open>d.get(k, default)\<close> on a dict.\<close>

definition dict_get :: "(string \<times> json) list \<Rightarrow> string \<Rightarrow> json" where
  "dict_get d k = (case map_of d k of None \<Rightarrow> JNull | Some v \<Rightarrow> v)"

definition dict_get_default :: "(string \<times> json) list \<Rightarrow> string \<Rightarrow> json \<Rightarrow> json" where
  "dict_get_default d k dflt = (case map_of d k of None \<Rightarrow> dflt | Some v \<Rightarrow> v)"

fun type_name :: "json \<Rightarrow> string" where
  "type_name JNull = ''NoneType''"
| "type_name (JBool b) = ''bool''"
| "type_name (JInt i) = ''int''"
| "type_name (JFloat r) = ''float''"
| "type_name (JStr s) = ''str''"
| "type_name (JArr xs) = ''list''"
| "type_name (JObj kvs) = ''dict''"

text \<open>\<open>x.get(k)\<close> on any object: only a dict has the method.\<close>

definition obj_get :: "json \<Rightarrow> string \<Rightarrow> exn + json" where
  "obj_get x k =
     (case x of
        JObj d \<Rightarrow> Inr (dict_get d k)
      | _ \<Rightarrow> Inl (AttributeError ([CHR 39] @ type_name x @ [CHR 39] @
                 '' object has no attribute '' @ [CHR 39] @ ''get'' @ [CHR 39])))"

section \<open>Strings\<close>

definition code :: "char \<Rightarrow> nat" where
  "code c = of_char c"

text \<open>\<open>str.isspace\<close> on one character; the same test decides \<open>\s\<close> and \<open>str.strip()\<close>.\<close>

definition isspace :: "char \<Rightarrow> bool" where
  "isspace c = (let n = code c in
     (9 \<le> n \<and> n \<le> 13) \<or> (28 \<le> n \<and> n \<le> 32) \<or> n = 133 \<or> n = 160)"

text \<open>A word character, \<open>\w\<close>: alphanumeric or the underscore.\<close>

definition isword :: "char \<Rightarrow> bool" where
  "isword c = (let n = code c in
     (48 \<le> n \<and> n \<le> 57) \<or> (65 \<le> n \<and> n \<le> 90) \<or> n = 95 \<or> (97 \<le> n \<and> n \<le> 122) \<or>
     n = 170 \<or> n = 178 \<or> n = 179 \<or> n = 181 \<or> n = 185 \<or> n = 186 \<or>
     (188 \<le> n \<and> n \<le> 190) \<or> (192 \<le> n \<and> n \<le> 214) \<or> (216 \<le> n \<and> n \<le> 246) \<or>
     (248 \<le> n \<and> n \<le> 255))"

definition lower_char :: "char \<Rightarrow> char" where
  "lower_char c = (let n = code c in
     if (65 \<le> n \<and> n \<le> 90) \<or> (192 \<le> n \<and> n \<le> 222 \<and> n \<noteq> 215)
     then char_of (n + 32) else c)"

definition lower :: "string \<Rightarrow> string" where
  "lower s = map lower_char s"

definition strip_chars :: "(char \<Rightarrow> bool) \<Rightarrow> string \<Rightarrow> string" where
  "strip_chars P s = rev (dropWhile P (rev (dropWhile P s)))"

definition strip :: "string \<Rightarrow> string" where
  "strip s = strip_chars isspace s"

section \<open>Regular expressions of the \<open>re\<close> module\<close>

text \<open>
  The patterns of the program use literals, character classes, \<open>\s\<close>, greedy repetition
  of a one-character item, the greedy optional group, alternation, \<open>\b\<close>, \<open>$\<close> and at
  most one capturing group. \<open>Rep a n\<close> is \<open>a{n,}\<close>, so \<open>a+\<close> is \<open>Rep a 1\<close>.
  A class is a list of ranges, a single character \<open>c\<close> being the range \<open>(c, c)\<close>.
\<close>

datatype atom = Class "(char \<times> char) list" | Space

datatype regex =
    Str string
  | One atom
  | Rep atom nat
  | Opt regex
  | Cat "regex list"
  | Alts "regex list"
  | WordB
  | Eol
  | Group regex

text \<open>
  A position in the subject: the character before it (for \<open>\b\<close>), the text from it on,
  and the text of group 1 when the group has matched.
\<close>

record mstate =
  prev :: "char option"
  rest :: string
  group1 :: "string option"

definition in_class :: "(char \<times> char) list \<Rightarrow> char \<Rightarrow> bool" where
  "in_class rs c = list_ex (\<lambda>(lo, hi). code lo \<le> code c \<and> code c \<le> code hi) rs"

text \<open>
  Every class matched under IGNORECASE in this program holds both cases of each of its
  letters, so the flag does not change a class test.
\<close>

fun atom_ok :: "atom \<Rightarrow> char \<Rightarrow> bool" where
  "atom_ok (Class rs) c = in_class rs c"
| "atom_ok Space c = isspace c"

definition str_ok :: "bool \<Rightarrow> string \<Rightarrow> string \<Rightarrow> bool" where
  "str_ok ic w s =
     (if ic then lower (take (length w) s) = lower w else take (length w) s = w)"

text \<open>Move \<open>k\<close> characters forward.\<close>

definition advance :: "nat \<Rightarrow> mstate \<Rightarrow> mstate" where
  "advance k st =
     st\<lparr>prev := (if k = 0 then prev st else Some (rest st ! (k - 1))),
        rest := drop k (rest st)\<rparr>"

definition at_boundary :: "mstate \<Rightarrow> bool" where
  "at_boundary st =
     ((case prev st of None \<Rightarrow> False | Some c \<Rightarrow> isword c) \<noteq>
      (case rest st of [] \<Rightarrow> False | c # cs \<Rightarrow> isword c))"

text \<open>
  All ways of matching a pattern at a position, in the order in which the backtracking
  matcher tries them (greedy items longest first, alternatives left to right): the
  head of the list is the match that \<open>re\<close> reports.
\<close>

fun ends :: "bool \<Rightarrow> regex \<Rightarrow> mstate \<Rightarrow> mstate list" where
  "ends ic (Str w) st = (if str_ok ic w (rest st) then [advance (length w) st] else [])"
| "ends ic (One a) st =
     (case rest st of [] \<Rightarrow> [] | c # cs \<Rightarrow> if atom_ok a c then [advance 1 st] else [])"
| "ends ic (Rep a n) st =
     map (\<lambda>k. advance k st) (rev [n ..< Suc (length (takeWhile (atom_ok a) (rest st)))])"
| "ends ic (Opt r) st = ends ic r st @ [st]"
| "ends ic (Cat []) st = [st]"
| "ends ic (Cat (r # rs)) st = concat (map (ends ic (Cat rs)) (ends ic r st))"
| "ends ic (Alts rs) st = concat (map (\<lambda>r. ends ic r st) rs)"
| "ends ic WordB st = (if at_boundary st then [st] else [])"
| "ends ic Eol st = (if rest st = [] \<or> rest st = [CHR 0x0A] then [st] else [])"
| "ends ic (Group r) st =
     map (\<lambda>st'. st'\<lparr>group1 := Some (take (length (rest st) - length (rest st')) (rest st))\<rparr>)
       (ends ic r st)"

record rmatch =
  m_start :: nat
  group0 :: string
  m_group1 :: "string option"

text \<open>\<open>re.search\<close>: the first position, from the left, at which the pattern matches.\<close>

fun search_from :: "bool \<Rightarrow> regex \<Rightarrow> char option \<Rightarrow> string \<Rightarrow> nat \<Rightarrow> rmatch option" where
  "search_from ic r p s i =
     (case ends ic r \<lparr>prev = p, rest = s, group1 = None\<rparr> of
        st' # _ \<Rightarrow> Some \<lparr>m_start = i, group0 = take (length s - length (rest st')) s,
                          m_group1 = group1 st'\<rparr>
      | [] \<Rightarrow> (case s of [] \<Rightarrow> None | c # cs \<Rightarrow> search_from ic r (Some c) cs (Suc i)))"

definition re_search :: "bool \<Rightarrow> regex \<Rightarrow> string \<Rightarrow> rmatch option" where
  "re_search ic r s = search_from ic r None s 0"

text \<open>
  \<open>re.sub\<close> and \<open>re.split\<close> walk the subject from the left, take the match at the first
  position that has one and go on behind it. An empty match is taken too, and the walk
  then moves one character on; no pattern of this program matches the empty string.
\<close>

function sub_from :: "bool \<Rightarrow> regex \<Rightarrow> string \<Rightarrow> char option \<Rightarrow> string \<Rightarrow> string" where
  "sub_from ic r repl p s =
     (case ends ic r \<lparr>prev = p, rest = s, group1 = None\<rparr> of
        st' # _ \<Rightarrow>
          (if length s - length (rest st') = 0
           then repl @ (case s of [] \<Rightarrow> [] | c # cs \<Rightarrow> c # sub_from ic r repl (Some c) cs)
           else repl @ sub_from ic r repl (prev st') (drop (length s - length (rest st')) s))
      | [] \<Rightarrow> (case s of [] \<Rightarrow> [] | c # cs \<Rightarrow> c # sub_from ic r repl (Some c) cs))"
  by pat_completeness auto
termination
  by (relation "measure (\<lambda>(ic, r, repl, p, s). length s)") auto

definition re_sub :: "bool \<Rightarrow> regex \<Rightarrow> string \<Rightarrow> string \<Rightarrow> string" where
  "re_sub ic r repl s = sub_from ic r repl None s"

function split_from :: "bool \<Rightarrow> regex \<Rightarrow> char option \<Rightarrow> string \<Rightarrow> string \<Rightarrow> string list" where
  "split_from ic r p s cur =
     (case ends ic r \<lparr>prev = p, rest = s, group1 = None\<rparr> of
        st' # _ \<Rightarrow>
          (if length s - length (rest st') = 0
           then cur # (case s of [] \<Rightarrow> [[]] | c # cs \<Rightarrow> split_from ic r (Some c) cs [c])
           else cur # split_from ic r (prev st') (drop (length s - length (rest st')) s) [])
      | [] \<Rightarrow> (case s of [] \<Rightarrow> [cur] | c # cs \<Rightarrow> split_from ic r (Some c) cs (cur @ [c])))"
  by pat_completeness auto
termination
  by (relation "measure (\<lambda>(ic, r, p, s, cur). length s)") auto

definition re_split :: "bool \<Rightarrow> regex \<Rightarrow> string \<Rightarrow> string list" where
  "re_split ic r s = split_from ic r None s []"

section \<open>MetricResolver: \<open>extract_metric_from_owm\<close>\<close>

definition nested_get :: "json \<Rightarrow> string \<Rightarrow> string \<Rightarrow> exn + json" where
  "nested_get owm_json outer inner =
     (case owm_json of
        JObj d \<Rightarrow> obj_get (dict_get_default d outer (JObj [])) inner
      | _ \<Rightarrow> obj_get owm_json outer)"

definition extract_metric_from_owm :: "string \<Rightarrow> json \<Rightarrow> exn + json" where
  "extract_metric_from_owm metric owm_json =
     (if metric = ''temperature'' then nested_get owm_json ''main'' ''temp''
      else if metric = ''humidity'' then nested_get owm_json ''main'' ''humidity''
      else if metric = ''pressure'' then nested_get owm_json ''main'' ''pressure''
      else if metric = ''wind_speed'' then nested_get owm_json ''wind'' ''speed''
      else if metric = ''rainfall'' then
        (case obj_get owm_json ''rain'' of
           Inl e \<Rightarrow> Inl e
         | Inr rain \<Rightarrow>
             (case rain of
                JObj r \<Rightarrow> Inr (py_or (dict_get r ''1h'') (py_or (dict_get r ''3h'') (JFloat 0.0)))
              | _ \<Rightarrow> Inr (JFloat 0.0)))
      else Inr JNull)"

section \<open>MetricLexicon and TextIntentExtractor\<close>

text \<open>The dict \<open>METRIC_KEYWORDS\<close>, in the order in which it is written.\<close>

definition METRIC_KEYWORDS :: "(string \<times> regex list) list" where
  "METRIC_KEYWORDS =
    [(''temperature'',
        [Cat [Str ''temp'', Opt (Str ''erature'')], Str ''hotter'', Str ''colder'',
         Str ''degrees'', Str [CHR 0xB0, CHR ''c''], Str [CHR 0xB0, CHR ''f''],
         Cat [WordB, Str ''weather'', WordB]]),
     (''rainfall'',
        [Cat [Str ''rain'', Opt (Str ''fall'')], Str ''precipitation'', Str ''mm of rain'',
         Str ''rainy'']),
     (''humidity'', [Str ''humidity'', Str ''humid'']),
     (''wind_speed'',
        [Cat [Str ''wind'', Opt (Str '' speed'')], Str ''windspeed'', Str ''wind gust'']),
     (''pressure'', [Str ''pressure'', Str ''hpa'', Str ''atm''])]"

definition singles :: "string \<Rightarrow> (char \<times> char) list" where
  "singles cs = map (\<lambda>c. (c, c)) cs"

definition LOCATION_PATTERN :: regex where
  "LOCATION_PATTERN =
     Cat [Str ''in '',
          Group (Rep (Class ([(CHR ''A'', CHR ''Z''), (CHR ''0'', CHR ''9''), (CHR ''a'', CHR ''z'')]
                             @ singles '' -_,'')) 1)]"

definition months :: regex where
  "months =
     Group (Alts [Str ''january'', Str ''february'', Str ''march'', Str ''april'', Str ''may'',
                  Str ''june'', Str ''july'', Str ''august'', Str ''september'', Str ''october'',
                  Str ''november'', Str ''december'', Str ''today'', Str ''now'',
                  Str ''yesterday'', Str ''last week'', Str ''this week''])"

record extraction =
  metrics :: "string list"
  location :: "string option"
  time :: "string option"

text \<open>The inner loop over the patterns of one metric, left at the first match.\<close>

fun any_pattern :: "regex list \<Rightarrow> string \<Rightarrow> bool" where
  "any_pattern [] text_low = False"
| "any_pattern (pat # pats) text_low =
     (if re_search False pat text_low \<noteq> None then True else any_pattern pats text_low)"

text \<open>The outer loop over the items of the dict, appending to \<open>found\<close>.\<close>

fun scan_metrics :: "(string \<times> regex list) list \<Rightarrow> string \<Rightarrow> string list \<Rightarrow> string list" where
  "scan_metrics [] text_low found = found"
| "scan_metrics ((metric, patterns) # items) text_low found =
     scan_metrics items text_low
       (if any_pattern patterns text_low then found @ [metric] else found)"

text \<open>\<open>list(dict.fromkeys(xs))\<close>: the first occurrence of each element, in order.\<close>

definition fromkeys :: "string list \<Rightarrow> string list" where
  "fromkeys xs = foldl (\<lambda>acc x. if x \<in> set acc then acc else acc @ [x]) [] xs"

definition extract_metrics :: "string \<Rightarrow> extraction" where
  "extract_metrics text =
     (let text_low = lower text;
          found = scan_metrics METRIC_KEYWORDS text_low [];
          loc = (case re_search True LOCATION_PATTERN text of
                   None \<Rightarrow> None
                 | Some m \<Rightarrow> map_option strip (m_group1 m));
          t = (case re_search False months text_low of
                 None \<Rightarrow> None
               | Some tm \<Rightarrow> m_group1 tm)
      in \<lparr>metrics = fromkeys found, location = loc, time = t\<rparr>)"

section \<open>LocationSanitizer and LocationSplitter\<close>

definition word_token :: "string \<Rightarrow> regex" where
  "word_token w = Cat [WordB, Str w, WordB]"

definition abbr_token :: "string \<Rightarrow> string \<Rightarrow> regex" where
  "abbr_token w tail = Cat [WordB, Str w, Opt (Str tail), WordB]"

definition TIME_TOKENS :: "regex list" where
  "TIME_TOKENS =
     [word_token ''now'', word_token ''today'', word_token ''yesterday'', word_token ''last'',
      word_token ''this'', word_token ''next'', word_token ''week'', word_token ''month'',
      abbr_token ''jan'' ''uary'', abbr_token ''feb'' ''ruary'', abbr_token ''mar'' ''ch'',
      abbr_token ''apr'' ''il'', word_token ''may'', abbr_token ''jun'' ''e'',
      abbr_token ''jul'' ''y'', abbr_token ''aug'' ''ust'', abbr_token ''sep'' ''tember'',
      abbr_token ''oct'' ''ober'', abbr_token ''nov'' ''ember'', abbr_token ''dec'' ''ember'']"

definition TIME_RE :: regex where
  "TIME_RE = Alts TIME_TOKENS"

text \<open>
  The four assignments to \<open>loc\<close> in the body of \<open>sanitize_location\<close>: parentheses to
  spaces, trailing punctuation off, time words out, runs of whitespace to one space and
  commas off both ends, each followed by \<open>strip()\<close>.
\<close>

definition cleanup :: "string \<Rightarrow> string" where
  "cleanup raw =
     (let loc = strip (re_sub False (One (Class (singles ''()''))) '' '' raw);
          loc = strip (re_sub False (Cat [Rep (Class (singles ''.,;:'')) 1, Eol]) [] loc);
          loc = strip (re_sub True TIME_RE [] loc);
          loc = strip_chars (\<lambda>c. c = CHR '','') (strip (re_sub False (Rep Space 2) '' '' loc))
      in loc)"

definition sanitize_location :: "string option \<Rightarrow> string option" where
  "sanitize_location raw_location =
     (case raw_location of
        None \<Rightarrow> None
      | Some raw \<Rightarrow>
          if raw = [] then None
          else
            let loc = cleanup raw
            in if loc = [] then None else Some loc)"

definition SPLIT_RE :: regex where
  "SPLIT_RE =
     Alts [Cat [Rep Space 1, Str ''and'', Rep Space 1], Str '','', Str '';'', Str ''/'', Str ''|'']"

definition split_locations :: "string option \<Rightarrow> string list" where
  "split_locations raw_location =
     (case raw_location of
        None \<Rightarrow> []
      | Some raw \<Rightarrow>
          if raw = [] then []
          else map strip (filter (\<lambda>p. p \<noteq> [] \<and> strip p \<noteq> []) (re_split True SPLIT_RE raw)))"

section \<open>ProviderGateway: \<open>call_openweathermap_current\<close>\<close>

text \<open>
  What \<open>requests.get\<close> returns: the status line, the body text, and what \<open>resp.json()\<close>
  gives (a decoded document, or the exception of a body that is not JSON).
\<close>

record http_response =
  status_code :: nat
  reason :: string
  body_text :: string
  json_body :: "exn + json"

text \<open>
  The network is a parameter: it takes the state of the outside world, the location and
  the key of one GET request, and gives the response (or the exception of a failed
  transport) and the next state of the world. Every request goes through it, so the
  world changes only where the program performs a request.
\<close>

type_synonym 'w network = "'w \<Rightarrow> string \<Rightarrow> string \<Rightarrow> (exn + http_response) \<times> 'w"

fun digit_char :: "nat \<Rightarrow> char" where
  "digit_char n = char_of (48 + n)"

fun str_nat :: "nat \<Rightarrow> string" where
  "str_nat n = (if n < 10 then [digit_char n] else str_nat (n div 10) @ [digit_char (n mod 10)])"

definition call_openweathermap_current ::
  "'w network \<Rightarrow> string \<Rightarrow> string option \<Rightarrow> 'w \<Rightarrow> (exn + json) \<times> 'w" where
  "call_openweathermap_current net loc api_key w =
     (case api_key of
        None \<Rightarrow>
          (Inl (RuntimeError
             ''OpenWeather API key is missing. Set OWM_API_KEY (or OWA) in environment.''), w)
      | Some k \<Rightarrow>
          if k = [] then
            (Inl (RuntimeError
               ''OpenWeather API key is missing. Set OWM_API_KEY (or OWA) in environment.''), w)
          else if loc = [] then (Inl (RuntimeError ''Location is empty.''), w)
          else
            (case net w loc k of
               (Inl e, w') \<Rightarrow> (Inl e, w')
             | (Inr resp, w') \<Rightarrow>
                 if 400 \<le> status_code resp \<and> status_code resp < 600
                 then (Inl (HTTPError (str_nat (status_code resp) @ '' '' @ reason resp @
                                        '': '' @ body_text resp)), w')
                 else (json_body resp, w')))"

section \<open>QueryOrchestrator: \<open>api_get_metric\<close>\<close>

record query_result =
  r_metric :: string
  r_location :: string
  r_value :: json
  r_units :: string
  r_provider :: string

record query_error =
  e_location :: string
  e_error :: string

datatype detail = Message string | Errors "query_error list"

datatype http_exception = HTTPException nat detail

text \<open>The environment variables that hold the credential.\<close>

record environ =
  OWM_API_KEY :: "string option"
  OWA :: "string option"

definition nonempty :: "string option \<Rightarrow> bool" where
  "nonempty x = (case x of None \<Rightarrow> False | Some s \<Rightarrow> s \<noteq> [])"

definition get_api_key :: "environ \<Rightarrow> string option" where
  "get_api_key env =
     (if nonempty (OWM_API_KEY env) then OWM_API_KEY env
      else if nonempty (OWA env) then OWA env
      else None)"

text \<open>The loop that sanitizes every piece of the split location.\<close>

fun clean_loop :: "string list \<Rightarrow> string list \<Rightarrow> string list" where
  "clean_loop [] clean_locations = clean_locations"
| "clean_loop (rl # rls) clean_locations =
     clean_loop rls
       (case sanitize_location (Some rl) of
          None \<Rightarrow> clean_locations
        | Some cl \<Rightarrow> clean_locations @ [cl])"

text \<open>
  The loop over the clean locations: one \<open>try\<close> block per location, whose two
  \<open>except\<close> clauses both append to \<open>errors\<close>.
\<close>

fun query_loop ::
  "'w network \<Rightarrow> string option \<Rightarrow> string \<Rightarrow> string list \<Rightarrow>
   query_result list \<Rightarrow> query_error list \<Rightarrow> 'w \<Rightarrow>
   (query_result list \<times> query_error list) \<times> 'w" where
  "query_loop net api_key metric [] results errors w = ((results, errors), w)"
| "query_loop net api_key metric (loc # locs) results errors w =
     (case call_openweathermap_current net loc api_key w of
        (Inl e, w') \<Rightarrow>
          query_loop net api_key metric locs results
            (errors @ [\<lparr>e_location = loc, e_error = str_exn e\<rparr>]) w'
      | (Inr owm, w') \<Rightarrow>
          (case extract_metric_from_owm metric owm of
             Inl e \<Rightarrow>
               query_loop net api_key metric locs results
                 (errors @ [\<lparr>e_location = loc, e_error = str_exn e\<rparr>]) w'
           | Inr v \<Rightarrow>
               query_loop net api_key metric locs
                 (results @ [\<lparr>r_metric = metric, r_location = loc, r_value = v,
                               r_units = ''metric (see provider)'',
                               r_provider = ''openweathermap''\<rparr>])
                 errors w'))"

definition clean_locations_of :: "string option \<Rightarrow> string list" where
  "clean_locations_of loc = clean_loop (split_locations loc) []"

definition api_get_metric ::
  "'w network \<Rightarrow> environ \<Rightarrow> string option \<Rightarrow> string option \<Rightarrow> 'w \<Rightarrow>
   (http_exception + query_result list \<times> query_error list) \<times> 'w" where
  "api_get_metric net env metric_param location_param w =
     (let metric = lower (case metric_param of None \<Rightarrow> [] | Some m \<Rightarrow> m) in
      if metric \<notin> set (map fst METRIC_KEYWORDS) then
        (Inl (HTTPException 400
           (Message (''Metric '' @ [CHR 39] @ metric @ [CHR 39] @ '' not supported.''))), w)
      else if \<not> nonempty location_param then
        (Inl (HTTPException 400 (Message ''`location` query param is required'')), w)
      else
        let api_key = get_api_key env;
            clean_locations = clean_locations_of location_param
        in if clean_locations = [] then
             (Inl (HTTPException 400
                (Message ''No valid location found after parsing/sanitization'')), w)
           else
             (case query_loop net api_key metric clean_locations [] [] w of
                ((results, errors), w') \<Rightarrow>
                  if results = [] \<and> errors \<noteq> []
                  then (Inl (HTTPException 502 (Errors errors)), w')
                  else (Inr (results, errors), w')))"

text \<open>
  The three walks are unfolded by hand where a proof needs it; for the simplifier their
  equations would unfold without end.
\<close>

declare search_from.simps [simp del]
declare sub_from.simps [simp del]
declare split_from.simps [simp del]

section \<open>Names used in the statements\<close>

text \<open>The five metric identifiers, in the order of the lexicon.\<close>

definition known_metrics :: "string list" where
  "known_metrics = [''temperature'', ''rainfall'', ''humidity'', ''wind_speed'', ''pressure'']"

text \<open>The words that the pattern \<open>months\<close> of the time detection lists.\<close>

definition time_vocabulary :: "string list" where
  "time_vocabulary =
     [''january'', ''february'', ''march'', ''april'', ''may'', ''june'', ''july'', ''august'',
      ''september'', ''october'', ''november'', ''december'', ''today'', ''now'', ''yesterday'',
      ''last week'', ''this week'']"

text \<open>
  The splitter as the specification words it, without regular expressions. A separator
  is one of the characters comma, semicolon, slash and bar, or the word \<open>and\<close> in any
  case with whitespace on both sides, the whitespace being part of the separator.
  \<open>separator_at s\<close> is the length of the separator that starts at the head of \<open>s\<close>, 0
  when none does. \<open>pieces\<close> walks through the string and cuts at every separator;
  each piece is then trimmed and the empty ones are discarded.
\<close>

definition and_separator :: "string \<Rightarrow> nat" where
  "and_separator s =
     (let ws = takeWhile isspace s; r = dropWhile isspace s;
          ws2 = takeWhile isspace (drop 3 r)
      in if ws \<noteq> [] \<and> lower (take 3 r) = ''and'' \<and> ws2 \<noteq> []
         then length ws + 3 + length ws2 else 0)"

definition separator_at :: "string \<Rightarrow> nat" where
  "separator_at s =
     (case s of
        [] \<Rightarrow> 0
      | c # cs \<Rightarrow> if c \<in> set '',;/|'' then 1 else and_separator s)"

fun pieces :: "string \<Rightarrow> string \<Rightarrow> string list" where
  "pieces [] cur = [cur]"
| "pieces (c # cs) cur =
     (if separator_at (c # cs) = 0 then pieces cs (cur @ [c])
      else cur # pieces (drop (separator_at (c # cs) - 1) cs) [])"

definition split_spec :: "string option \<Rightarrow> string list" where
  "split_spec raw_location =
     (case raw_location of
        None \<Rightarrow> []
      | Some raw \<Rightarrow> filter (\<lambda>p. p \<noteq> []) (map strip (pieces raw [])))"

text \<open>
  The fan-out over the locations as the specification words it: every candidate gets
  its own attempt (the gateway call, then the resolution of the metric), which ends in
  one tagged outcome, an error or a result; the attempts follow one another in the order
  of the candidates, each in the world the one before it has left, whatever its outcome.
\<close>

definition attempt ::
  "'w network \<Rightarrow> string option \<Rightarrow> string \<Rightarrow> string \<Rightarrow> 'w \<Rightarrow> (query_error + query_result) \<times> 'w" where
  "attempt net api_key metric loc w =
     (case call_openweathermap_current net loc api_key w of
        (Inl e, w') \<Rightarrow> (Inl \<lparr>e_location = loc, e_error = str_exn e\<rparr>, w')
      | (Inr owm, w') \<Rightarrow>
          (case extract_metric_from_owm metric owm of
             Inl e \<Rightarrow> (Inl \<lparr>e_location = loc, e_error = str_exn e\<rparr>, w')
           | Inr v \<Rightarrow>
               (Inr \<lparr>r_metric = metric, r_location = loc, r_value = v,
                     r_units = ''metric (see provider)'', r_provider = ''openweathermap''\<rparr>,
                w')))"

fun outcomes ::
  "'w network \<Rightarrow> string option \<Rightarrow> string \<Rightarrow> string list \<Rightarrow> 'w \<Rightarrow>
   (query_error + query_result) list \<times> 'w" where
  "outcomes net api_key metric [] w = ([], w)"
| "outcomes net api_key metric (loc # locs) w =
     (case attempt net api_key metric loc w of
        (out, w1) \<Rightarrow>
          (case outcomes net api_key metric locs w1 of
             (outs, w2) \<Rightarrow> (out # outs, w2)))"

fun errors_of :: "(query_error + query_result) list \<Rightarrow> query_error list" where
  "errors_of [] = []"
| "errors_of (Inl e # outs) = e # errors_of outs"
| "errors_of (Inr r # outs) = errors_of outs"

fun results_of :: "(query_error + query_result) list \<Rightarrow> query_result list" where
  "results_of [] = []"
| "results_of (Inl e # outs) = results_of outs"
| "results_of (Inr r # outs) = r # results_of outs"

definition out_location :: "query_error + query_result \<Rightarrow> string" where
  "out_location out = (case out of Inl e \<Rightarrow> e_location e | Inr r \<Rightarrow> r_location r)"

text \<open>
  A network that keeps, beside the world of the network it wraps, the list of the
  locations it has been asked for.
\<close>

definition recording :: "'w network \<Rightarrow> ('w \<times> string list) network" where
  "recording net wl loc k =
     (case net (fst wl) loc k of (r, w') \<Rightarrow> (r, (w', snd wl @ [loc])))"

text \<open>
  A provider for the examples: it knows Paris, answers 404 for every other place, and
  counts the requests it receives in the world, a natural number.
\<close>

definition paris_only :: "nat network" where
  "paris_only w loc k =
     (if loc = ''Paris''
      then Inr \<lparr>status_code = 200, reason = ''OK'', body_text = [],
                json_body = Inr (JObj [(''main'', JObj [(''temp'', JFloat 21.5)])])\<rparr>
      else Inr \<lparr>status_code = 404, reason = ''Not Found'',
                body_text = ''city not found'', json_body = Inr (JObj [])\<rparr>,
      Suc w)"

definition with_key :: environ where
  "with_key = \<lparr>OWM_API_KEY = Some ''k'', OWA = None\<rparr>"

definition without_key :: environ where
  "without_key = \<lparr>OWM_API_KEY = None, OWA = Some []\<rparr>"

section \<open>Lower-casing\<close>

lemma code_lower_char:
  "code (lower_char c) =
     (if (65 \<le> code c \<and> code c \<le> 90) \<or> (192 \<le> code c \<and> code c \<le> 222 \<and> code c \<noteq> 215)
      then code c + 32 else code c)"
  by (auto simp: lower_char_def code_def Let_def)

lemma lower_char_idem: "lower_char (lower_char c) = lower_char c"
proof -
  have "code (lower_char (lower_char c)) = code (lower_char c)"
    by (simp add: code_lower_char)
  then show ?thesis by (simp add: code_def)
qed

lemma lower_idem: "lower (lower s) = lower s"
  by (simp add: lower_def lower_char_idem)

section \<open>The rainfall metric\<close>

text \<open>
  C1 (as the code has it). For every provider response that is an object, resolving
  \<open>rainfall\<close> never raises. When the response holds a rain object, the result is its
  \<open>1h\<close> value if that value is true in Python's sense (present, not null, not zero, not
  empty), else its \<open>3h\<close> value if that one is true in the same sense, else \<open>0.0\<close>; when
  the response holds no rain object the result is \<open>0.0\<close>. A response with rain
  \<open>{"1h": 2.5}\<close> resolves to 2.5, one with rain \<open>{"3h": 1.0}\<close> to 1.0, one without a
  rain key to 0.0.
\<close>

theorem rainfall_resolution:
  "extract_metric_from_owm ''rainfall'' (JObj d) =
     Inr (case map_of d ''rain'' of
            Some (JObj r) \<Rightarrow>
              if truthy (dict_get r ''1h'') then dict_get r ''1h''
              else if truthy (dict_get r ''3h'') then dict_get r ''3h''
              else JFloat 0.0
          | _ \<Rightarrow> JFloat 0.0)
   \<and> extract_metric_from_owm ''rainfall'' (JObj [(''rain'', JObj [(''1h'', JFloat 2.5)])])
       = Inr (JFloat 2.5)
   \<and> extract_metric_from_owm ''rainfall'' (JObj [(''rain'', JObj [(''3h'', JFloat 1.0)])])
       = Inr (JFloat 1.0)
   \<and> extract_metric_from_owm ''rainfall'' (JObj [(''main'', JObj [(''temp'', JFloat 20)])])
       = Inr (JFloat 0.0)"
  by (simp add: extract_metric_from_owm_def obj_get_def dict_get_def py_or_def
      split: option.splits json.splits)

text \<open>
  C1 as the spec states it fails where the \<open>1h\<close> value is present and zero: the rain
  object \<open>{"1h": 0, "3h": 4.2}\<close> resolves to the \<open>3h\<close> value 4.2, not to the \<open>1h\<close>
  value 0.
\<close>

theorem rainfall_zero_1h_counterexample:
  "extract_metric_from_owm ''rainfall''
     (JObj [(''rain'', JObj [(''1h'', JInt 0), (''3h'', JFloat 4.2)])]) = Inr (JFloat 4.2)"
  by (simp add: extract_metric_from_owm_def obj_get_def dict_get_def py_or_def)

section \<open>The sanitizer\<close>

lemma in_class_singles: "in_class (singles cs) c = (c \<in> set cs)"
  by (induction cs) (auto simp: in_class_def singles_def code_def)

lemma sub_parens:
  "sub_from False (One (Class (singles ''()''))) '' '' p s =
     map (\<lambda>c. if c \<in> set ''()'' then CHR '' '' else c) s"
proof (induction s arbitrary: p)
  case Nil
  show ?case by (subst sub_from.simps) simp
next
  case (Cons c cs)
  show ?case
  proof (cases "c \<in> set ''()''")
    case True
    then have "ends False (One (Class (singles ''()''))) \<lparr>prev = p, rest = c # cs, group1 = None\<rparr>
                 = [advance 1 \<lparr>prev = p, rest = c # cs, group1 = None\<rparr>]"
      by (simp add: in_class_singles)
    then have "sub_from False (One (Class (singles ''()''))) '' '' p (c # cs) =
                 '' '' @ sub_from False (One (Class (singles ''()''))) '' '' (Some c) cs"
      by (subst sub_from.simps) (simp add: advance_def)
    with True Cons.IH show ?thesis by simp
  next
    case False
    then have "ends False (One (Class (singles ''()''))) \<lparr>prev = p, rest = c # cs, group1 = None\<rparr>
                 = []"
      by (simp add: in_class_singles)
    then have "sub_from False (One (Class (singles ''()''))) '' '' p (c # cs) =
                 c # sub_from False (One (Class (singles ''()''))) '' '' (Some c) cs"
      by (subst sub_from.simps) simp
    with False Cons.IH show ?thesis by simp
  qed
qed

lemma isspace_space: "isspace (CHR '' '')"
  by code_simp

lemma strip_all_space: "list_all isspace s \<Longrightarrow> strip s = []"
proof -
  assume "list_all isspace s"
  then have "\<forall>x \<in> set s. isspace x" by (simp only: list_all_iff)
  then have "dropWhile isspace s = []" by (simp only: dropWhile_eq_Nil_conv)
  then show ?thesis
    unfolding strip_def strip_chars_def by (simp only: rev.simps dropWhile.simps)
qed

lemma cleanup_of_nothing:
  "strip_chars (\<lambda>c. c = CHR '','')
     (strip (re_sub False (Rep Space 2) '' ''
        (strip (re_sub True TIME_RE []
           (strip (re_sub False (Cat [Rep (Class (singles ''.,;:'')) 1, Eol]) [] [])))))) = []"
  by code_simp

lemma cleanup_blank:
  assumes "list_all (\<lambda>c. isspace c \<or> c \<in> set ''()'') raw"
  shows "cleanup raw = []"
proof -
  have "list_all isspace (map (\<lambda>c. if c \<in> set ''()'' then CHR '' '' else c) raw)"
    using assms isspace_space by (auto simp: list_all_iff)
  then have "strip (re_sub False (One (Class (singles ''()''))) '' '' raw) = []"
    unfolding re_sub_def sub_parens by (rule strip_all_space)
  then show ?thesis
    unfolding cleanup_def Let_def by (simp only: cleanup_of_nothing)
qed

lemma cleanup_Nil: "cleanup [] = []"
  by (rule cleanup_blank) simp

lemma sanitize_cleanup:
  "sanitize_location (Some raw) = (if cleanup raw = [] then None else Some (cleanup raw))"
  by (simp add: sanitize_location_def Let_def cleanup_Nil)

lemma sanitize_today: "sanitize_location (Some ''today'') = None"
  by code_simp

lemma sanitize_next_week: "sanitize_location (Some ''(next week),'') = None"
  by code_simp

lemma sanitize_paris_today: "sanitize_location (Some ''Paris (today)'') = Some ''Paris''"
  by code_simp

text \<open>
  C8. Sanitizing an absent location (\<open>None\<close>, or the empty string) yields absent. For
  every input the sanitizer never returns the empty string: its result is absent exactly
  when the text left by the cleanup steps is empty, and is that text otherwise. So a
  location that the cleanup empties is reported as absent: every location made only of
  whitespace and parentheses, \<open>"today"\<close>, \<open>"(next week),"\<close>. And \<open>"Paris (today)"\<close>
  sanitizes to \<open>"Paris"\<close>.
\<close>

theorem sanitize_absent_never_empty:
  "sanitize_location None = None \<and> sanitize_location (Some []) = None
   \<and> sanitize_location x \<noteq> Some []
   \<and> sanitize_location (Some raw) = (if cleanup raw = [] then None else Some (cleanup raw))
   \<and> (list_all (\<lambda>c. isspace c \<or> c \<in> set ''()'') raw \<longrightarrow> sanitize_location (Some raw) = None)
   \<and> sanitize_location (Some ''today'') = None
   \<and> sanitize_location (Some ''(next week),'') = None
   \<and> sanitize_location (Some ''Paris (today)'') = Some ''Paris''"
proof -
  have a: "sanitize_location None = None" and a': "sanitize_location (Some []) = None"
    by (simp_all add: sanitize_location_def)
  have b: "sanitize_location x \<noteq> Some []"
    by (simp add: sanitize_location_def Let_def split: option.splits)
  have c: "list_all (\<lambda>c. isspace c \<or> c \<in> set ''()'') raw \<longrightarrow> sanitize_location (Some raw) = None"
    by (simp add: sanitize_cleanup cleanup_blank)
  show ?thesis
    by (intro conjI a a' b sanitize_cleanup c sanitize_today sanitize_next_week
        sanitize_paris_today)
qed

text \<open>The location \<open>"( )"\<close> is made of parentheses and a space, and is reported absent.\<close>

theorem sanitize_absent_never_empty_witness:
  "list_all (\<lambda>c. isspace c \<or> c \<in> set ''()'') ''( )'' \<and> sanitize_location (Some ''( )'') = None"
proof -
  have h: "list_all (\<lambda>c. isspace c \<or> c \<in> set ''()'') ''( )''" by code_simp
  note t = sanitize_absent_never_empty [of "None" "''( )''"]
  from t have "list_all (\<lambda>c. isspace c \<or> c \<in> set ''()'') ''( )'' \<longrightarrow>
                 sanitize_location (Some ''( )'') = None"
    by (elim conjE)
  from this h have "sanitize_location (Some ''( )'') = None" by (rule mp)
  with h show ?thesis by (rule conjI)
qed

section \<open>The orchestrator\<close>

lemma keys_METRIC_KEYWORDS: "map fst METRIC_KEYWORDS = known_metrics"
  by (simp add: METRIC_KEYWORDS_def known_metrics_def)


lemma query_loop_append:
  "query_loop net k metric (xs @ ys) rs es w =
     (case query_loop net k metric xs rs es w of
        ((rs1, es1), w1) \<Rightarrow> query_loop net k metric ys rs1 es1 w1)"
  by (induction xs arbitrary: rs es w) (auto split: prod.splits sum.splits)

lemma query_loop_account:
  "query_loop net k metric locs rs es w = ((rs', es'), w') \<Longrightarrow>
     \<exists>rs2 es2. rs' = rs @ rs2 \<and> es' = es @ es2 \<and>
       mset (map r_location rs2) + mset (map e_location es2) = mset locs \<and>
       subseq (map r_location rs2) locs \<and> subseq (map e_location es2) locs"
proof (induction locs arbitrary: rs es w)
  case Nil
  then show ?case by simp
next
  case (Cons loc locs)
  obtain res w1 where c: "call_openweathermap_current net loc k w = (res, w1)"
    by (cases "call_openweathermap_current net loc k w")
  show ?case
  proof (cases "case res of Inl e \<Rightarrow> Inl e | Inr owm \<Rightarrow> extract_metric_from_owm metric owm")
    case (Inl e)
    then obtain e' where
      "query_loop net k metric locs rs (es @ [\<lparr>e_location = loc, e_error = str_exn e'\<rparr>]) w1
         = ((rs', es'), w')"
      using Cons.prems c by (auto split: sum.splits)
    from Cons.IH [OF this] obtain rs2 es2 where
      h: "rs' = rs @ rs2" "es' = (es @ [\<lparr>e_location = loc, e_error = str_exn e'\<rparr>]) @ es2"
        "mset (map r_location rs2) + mset (map e_location es2) = mset locs"
        "subseq (map r_location rs2) locs" "subseq (map e_location es2) locs"
      by blast
    show ?thesis
      apply (rule exI [of _ rs2])
      apply (rule exI [of _ "\<lparr>e_location = loc, e_error = str_exn e'\<rparr> # es2"])
      using h by (auto intro: list_emb_Cons)
  next
    case (Inr v)
    then have
      "query_loop net k metric locs
         (rs @ [\<lparr>r_metric = metric, r_location = loc, r_value = v,
                  r_units = ''metric (see provider)'', r_provider = ''openweathermap''\<rparr>])
         es w1 = ((rs', es'), w')"
      using Cons.prems c by (auto split: sum.splits)
    from Cons.IH [OF this] obtain rs2 es2 where
      h: "rs' = (rs @ [\<lparr>r_metric = metric, r_location = loc, r_value = v,
                  r_units = ''metric (see provider)'', r_provider = ''openweathermap''\<rparr>]) @ rs2"
        "es' = es @ es2"
        "mset (map r_location rs2) + mset (map e_location es2) = mset locs"
        "subseq (map r_location rs2) locs" "subseq (map e_location es2) locs"
      by blast
    show ?thesis
      apply (rule exI [of _ "\<lparr>r_metric = metric, r_location = loc, r_value = v,
                  r_units = ''metric (see provider)'', r_provider = ''openweathermap''\<rparr> # rs2"])
      apply (rule exI [of _ es2])
      using h by (auto intro: list_emb_Cons)
  qed
qed

lemma query_loop_account0:
  assumes "query_loop net k metric locs [] [] w = ((rs, es), w')"
  shows "mset (map r_location rs) + mset (map e_location es) = mset locs"
    and "subseq (map r_location rs) locs" and "subseq (map e_location es) locs"
  using query_loop_account [OF assms] by auto

lemma all_errors_cover:
  assumes "query_loop net k metric locs [] [] w = (([], es), w')"
  shows "map e_location es = locs"
proof -
  have m: "mset (map e_location es) = mset locs" and s: "subseq (map e_location es) locs"
    using query_loop_account0 [OF assms] by auto
  from m have "length (map e_location es) = length locs"
    by (metis size_mset)
  with s show ?thesis by (rule subseq_same_length)
qed

lemma api_get_metric_main:
  assumes "lower m \<in> set known_metrics" "nonempty lp" "clean_locations_of lp \<noteq> []"
    and "query_loop net (get_api_key env) (lower m) (clean_locations_of lp) [] [] w
           = ((results, errors), w')"
  shows "api_get_metric net env (Some m) lp w =
           (if results = [] \<and> errors \<noteq> [] then (Inl (HTTPException 502 (Errors errors)), w')
            else (Inr (results, errors), w'))"
  using assms by (simp add: api_get_metric_def keys_METRIC_KEYWORDS Let_def)

text \<open>
  C3. For every metric query that passes the preconditions, with \<open>results\<close> and
  \<open>errors\<close> the two lists the loop over the clean locations has built: if \<open>results\<close>
  is empty and \<open>errors\<close> is not, the orchestrator raises the 502 failure that carries
  the whole list \<open>errors\<close>, else it returns \<open>results\<close> and \<open>errors\<close> together; and when
  \<open>results\<close> is empty, \<open>errors\<close> holds one entry per clean location, in order.
\<close>

theorem aggregate_failure_or_both:
  assumes "lower m \<in> set known_metrics" and "nonempty lp"
    and "clean_locations_of lp \<noteq> []"
    and "query_loop net (get_api_key env) (lower m) (clean_locations_of lp) [] [] w
           = ((results, errors), w')"
  shows "api_get_metric net env (Some m) lp w =
           (if results = [] \<and> errors \<noteq> [] then (Inl (HTTPException 502 (Errors errors)), w')
            else (Inr (results, errors), w'))
       \<and> (if results = [] then errors \<noteq> [] \<and> map e_location errors = clean_locations_of lp
          else True)"
proof -
  have a: "api_get_metric net env (Some m) lp w =
           (if results = [] \<and> errors \<noteq> [] then (Inl (HTTPException 502 (Errors errors)), w')
            else (Inr (results, errors), w'))"
    by (rule api_get_metric_main [OF assms])
  have b: "map e_location errors = clean_locations_of lp" if "results = []"
    using all_errors_cover [of net "get_api_key env" "lower m" "clean_locations_of lp" w errors w']
      assms(4) that by simp
  have c: "errors \<noteq> []" if "results = []"
    using b [OF that] assms(3) by auto
  from a b c show ?thesis by simp
qed

text \<open>With no credential both candidates fail, and the failure carries both errors.\<close>

theorem aggregate_failure_or_both_witness:
  "api_get_metric paris_only without_key (Some ''temperature'') (Some ''Paris and Tokyo'') 0 =
     (Inl (HTTPException 502 (Errors
        [\<lparr>e_location = ''Paris'', e_error =
            ''OpenWeather API key is missing. Set OWM_API_KEY (or OWA) in environment.''\<rparr>,
         \<lparr>e_location = ''Tokyo'', e_error =
            ''OpenWeather API key is missing. Set OWM_API_KEY (or OWA) in environment.''\<rparr>])), 0)
   \<and> clean_locations_of (Some ''Paris and Tokyo'') = [''Paris'', ''Tokyo'']"
proof -
  let ?errs = "[\<lparr>e_location = ''Paris'', e_error =
            ''OpenWeather API key is missing. Set OWM_API_KEY (or OWA) in environment.''\<rparr>,
         \<lparr>e_location = ''Tokyo'', e_error =
            ''OpenWeather API key is missing. Set OWM_API_KEY (or OWA) in environment.''\<rparr>]"
  have h1: "lower ''temperature'' \<in> set known_metrics" by code_simp
  have h2: "nonempty (Some ''Paris and Tokyo'')" by code_simp
  have c: "clean_locations_of (Some ''Paris and Tokyo'') = [''Paris'', ''Tokyo'']" by code_simp
  then have h3: "clean_locations_of (Some ''Paris and Tokyo'') \<noteq> []" by simp
  have h4: "query_loop paris_only (get_api_key without_key) (lower ''temperature'')
              (clean_locations_of (Some ''Paris and Tokyo'')) [] [] 0 = (([], ?errs), 0)"
    unfolding c by code_simp
  show ?thesis using aggregate_failure_or_both [OF h1 h2 h3 h4] c by simp
qed

text \<open>
  C4 (as the code has it). For every metric query whose metric identifier, once
  lower-cased, is not one of the five known identifiers, or whose location is missing or
  empty, or whose location leaves no clean location: the orchestrator raises a 400
  failure and the world is the one it started in, for every network, so no request to
  the provider has been made.
\<close>

theorem rejected_before_any_request:
  assumes "lower (case metric of None \<Rightarrow> [] | Some m \<Rightarrow> m) \<notin> set known_metrics
           \<or> \<not> nonempty lp \<or> clean_locations_of lp = []"
  shows "\<exists>msg. api_get_metric net env metric lp w = (Inl (HTTPException 400 (Message msg)), w)"
  using assms by (auto simp: api_get_metric_def keys_METRIC_KEYWORDS Let_def)

text \<open>
  An unknown metric, a missing location, and a location that is only a time word: each is
  rejected with the request counter of the example provider still at 0.
\<close>

theorem rejected_before_any_request_witness:
  "(\<exists>msg. api_get_metric paris_only with_key (Some ''moisture'') (Some ''Paris'') 0
           = (Inl (HTTPException 400 (Message msg)), 0))
   \<and> (\<exists>msg. api_get_metric paris_only with_key (Some ''rainfall'') None 0
           = (Inl (HTTPException 400 (Message msg)), 0))
   \<and> (\<exists>msg. api_get_metric paris_only with_key (Some ''rainfall'') (Some ''today'') 0
           = (Inl (HTTPException 400 (Message msg)), 0))"
proof -
  have h1: "lower (case Some ''moisture'' of None \<Rightarrow> [] | Some m \<Rightarrow> m) \<notin> set known_metrics"
    by code_simp
  have h2: "\<not> nonempty None" by code_simp
  have h3: "clean_locations_of (Some ''today'') = []" by code_simp
  show ?thesis
    using rejected_before_any_request [of "Some ''moisture''" "Some ''Paris''" paris_only with_key 0]
      rejected_before_any_request [of "Some ''rainfall''" None paris_only with_key 0]
      rejected_before_any_request [of "Some ''rainfall''" "Some ''today''" paris_only with_key 0]
      h1 h2 h3 by blast
qed

text \<open>
  C4 as the spec states it fails for an identifier that is outside the five-member set but
  lower-cases into it: \<open>"TEMPERATURE"\<close> is not rejected, and one request reaches the
  provider.
\<close>

theorem upper_case_metric_counterexample:
  "''TEMPERATURE'' \<notin> set known_metrics
   \<and> api_get_metric paris_only with_key (Some ''TEMPERATURE'') (Some ''Paris'') 0 =
       (Inr ([\<lparr>r_metric = ''temperature'', r_location = ''Paris'', r_value = JFloat 21.5,
                r_units = ''metric (see provider)'', r_provider = ''openweathermap''\<rparr>], []), 1)"
  by code_simp

section \<open>The extractor\<close>

lemma any_pattern_list_ex:
  "any_pattern pats t = list_ex (\<lambda>pat. re_search False pat t \<noteq> None) pats"
  by (induction pats) auto

lemma scan_metrics_filter:
  "scan_metrics items t found =
     found @ map fst (filter (\<lambda>(metric, patterns). any_pattern patterns t) items)"
  by (induction items arbitrary: found) auto

lemma foldl_fromkeys_distinct:
  "distinct (acc @ xs) \<Longrightarrow>
     foldl (\<lambda>acc x. if x \<in> set acc then acc else acc @ [x]) acc xs = acc @ xs"
  by (induction xs arbitrary: acc) auto

lemma fromkeys_distinct: "distinct xs \<Longrightarrow> fromkeys xs = xs"
  using foldl_fromkeys_distinct [of "[]" xs] by (simp add: fromkeys_def)

lemma subseq_map_fst_filter: "subseq (map fst (filter P xs)) (map fst xs)"
  by (induction xs) auto

lemma distinct_map_fst_filter: "distinct (map fst xs) \<Longrightarrow> distinct (map fst (filter P xs))"
  by (induction xs) auto

lemma metrics_extract:
  "metrics (extract_metrics t) =
     map fst (filter (\<lambda>(metric, patterns). any_pattern patterns (lower t)) METRIC_KEYWORDS)"
proof -
  have d: "distinct (map fst METRIC_KEYWORDS)"
    by (simp add: keys_METRIC_KEYWORDS known_metrics_def)
  have "metrics (extract_metrics t) = fromkeys (scan_metrics METRIC_KEYWORDS (lower t) [])"
    by (simp add: extract_metrics_def Let_def)
  also have "\<dots> = scan_metrics METRIC_KEYWORDS (lower t) []"
    by (rule fromkeys_distinct) (simp add: scan_metrics_filter distinct_map_fst_filter [OF d])
  finally show ?thesis by (simp add: scan_metrics_filter)
qed

lemma wind_rain_temperature:
  "metrics (extract_metrics ''wind and rain, temperature'')
     = [''temperature'', ''rainfall'', ''wind_speed'']"
  by code_simp

text \<open>
  C7. For every input text, the metrics list of the extraction result has no duplicates
  and is a subsequence of the lexicon's declared order (temperature, rainfall, humidity,
  wind_speed, pressure); the order is not the order of the matches in the text: in
  \<open>"wind and rain, temperature"\<close> the wind comes first and temperature last, and the
  result is temperature, rainfall, wind_speed.
\<close>

theorem metrics_distinct_in_lexicon_order:
  "distinct (metrics (extract_metrics t))
   \<and> subseq (metrics (extract_metrics t))
        [''temperature'', ''rainfall'', ''humidity'', ''wind_speed'', ''pressure'']
   \<and> metrics (extract_metrics ''wind and rain, temperature'')
        = [''temperature'', ''rainfall'', ''wind_speed'']"
proof -
  have d: "distinct (map fst METRIC_KEYWORDS)"
    by (simp add: keys_METRIC_KEYWORDS known_metrics_def)
  have a: "distinct (metrics (extract_metrics t))"
    unfolding metrics_extract by (rule distinct_map_fst_filter [OF d])
  have "subseq (metrics (extract_metrics t)) (map fst METRIC_KEYWORDS)"
    unfolding metrics_extract by (rule subseq_map_fst_filter)
  then have b: "subseq (metrics (extract_metrics t))
        [''temperature'', ''rainfall'', ''humidity'', ''wind_speed'', ''pressure'']"
    by (simp only: keys_METRIC_KEYWORDS known_metrics_def)
  show ?thesis by (intro conjI a b wind_rain_temperature)
qed

lemma berlin_extraction:
  "extract_metrics ''How much rain in Berlin next week'' =
     \<lparr>metrics = [''rainfall''], location = Some ''in Berlin next week'', time = None\<rparr>"
  by code_simp

lemma berlin_sanitized:
  "sanitize_location (Some ''in Berlin next week'') = Some ''in Berlin''"
  by code_simp

text \<open>
  C5 (as the code has it). Extracting from \<open>"How much rain in Berlin next week"\<close>
  yields metrics = [rainfall], no time (\<open>"next week"\<close> is not in the vocabulary of the
  time detection), and a location whose sanitized form ends in \<open>"Berlin"\<close>, the words
  \<open>"next week"\<close> behind it removed.
\<close>

theorem berlin_next_week:
  "metrics (extract_metrics ''How much rain in Berlin next week'') = [''rainfall'']
   \<and> time (extract_metrics ''How much rain in Berlin next week'') = None
   \<and> (\<exists>p. sanitize_location (location (extract_metrics ''How much rain in Berlin next week''))
            = Some (p @ ''Berlin''))"
proof -
  have e: "sanitize_location (location (extract_metrics ''How much rain in Berlin next week''))
          = Some (''in '' @ ''Berlin'')"
    by (simp add: berlin_extraction berlin_sanitized)
  have x: "\<exists>p. sanitize_location
       (location (extract_metrics ''How much rain in Berlin next week'')) = Some (p @ ''Berlin'')"
    by (rule exI [where x = "''in ''"]) (rule e)
  have m: "metrics (extract_metrics ''How much rain in Berlin next week'') = [''rainfall'']"
    by (simp add: berlin_extraction)
  have t: "time (extract_metrics ''How much rain in Berlin next week'') = None"
    by (simp add: berlin_extraction)
  show ?thesis by (intro conjI m t x)
qed

text \<open>
  C5 as the spec states it fails: the time is absent, not \<open>"next week"\<close>, and the location
  does not sanitize to \<open>"Berlin"\<close>: the first \<open>"in "\<close> of the text is the end of the word
  \<open>"rain"\<close>, so the capture is \<open>"in Berlin next week"\<close> and its sanitized form is
  \<open>"in Berlin"\<close>.
\<close>

theorem berlin_next_week_counterexample:
  "time (extract_metrics ''How much rain in Berlin next week'') = None
   \<and> sanitize_location (location (extract_metrics ''How much rain in Berlin next week''))
       = Some ''in Berlin''"
  by (simp add: berlin_extraction berlin_sanitized)

section \<open>Time detection\<close>

lemma months_vocabulary: "months = Group (Alts (map Str time_vocabulary))"
  by (simp add: months_def time_vocabulary_def)

lemma str_ok_prefix: "str_ok False w s = prefix w s"
proof
  assume "str_ok False w s"
  then have "take (length w) s = w" by (simp add: str_ok_def)
  then show "prefix w s" by (metis take_is_prefix)
next
  assume "prefix w s"
  then show "str_ok False w s" by (auto simp: str_ok_def prefix_def)
qed

lemma ends_words:
  "ends False (Alts (map Str ws)) st =
     map (\<lambda>w. advance (length w) st) (filter (\<lambda>w. prefix w (rest st)) ws)"
  by (induction ws) (simp_all add: str_ok_prefix)

lemma group_text:
  assumes "prefix w s"
  shows "take (length s - length (rest (advance (length w) \<lparr>prev = p, rest = s, group1 = g\<rparr>))) s = w"
proof -
  from assms obtain zs where "s = w @ zs" by (auto simp: prefix_def)
  then show ?thesis by (simp add: advance_def)
qed

lemma ends_months:
  "ends False months \<lparr>prev = p, rest = s, group1 = None\<rparr> =
     map (\<lambda>w. (advance (length w) \<lparr>prev = p, rest = s, group1 = None\<rparr>)\<lparr>group1 := Some w\<rparr>)
       (filter (\<lambda>w. prefix w s) time_vocabulary)"
proof -
  let ?st = "\<lparr>prev = p, rest = s, group1 = None\<rparr>"
  have "ends False months ?st =
      map (\<lambda>st'. st'\<lparr>group1 := Some (take (length (rest ?st) - length (rest st')) (rest ?st))\<rparr>)
        (ends False (Alts (map Str time_vocabulary)) ?st)"
    unfolding months_vocabulary by (rule ends.simps(10))
  also have "\<dots> =
      map (\<lambda>st'. st'\<lparr>group1 := Some (take (length (rest ?st) - length (rest st')) (rest ?st))\<rparr>)
        (map (\<lambda>w. advance (length w) ?st) (filter (\<lambda>w. prefix w (rest ?st)) time_vocabulary))"
    by (simp only: ends_words)
  also have "\<dots> = map (\<lambda>w. (advance (length w) ?st)\<lparr>group1 := Some w\<rparr>)
       (filter (\<lambda>w. prefix w s) time_vocabulary)"
    by (simp add: group_text cong: map_cong)
  finally show ?thesis .
qed

lemma search_months:
  "search_from False months p s i =
     (case filter (\<lambda>w. prefix w s) time_vocabulary of
        w # _ \<Rightarrow> Some \<lparr>m_start = i, group0 = w, m_group1 = Some w\<rparr>
      | [] \<Rightarrow> (case s of [] \<Rightarrow> None | c # cs \<Rightarrow> search_from False months (Some c) cs (Suc i)))"
proof (cases "filter (\<lambda>w. prefix w s) time_vocabulary")
  case Nil
  then show ?thesis
    by (subst search_from.simps) (simp add: ends_months)
next
  case (Cons w ws)
  then have "w \<in> set (filter (\<lambda>w. prefix w s) time_vocabulary)" by simp
  then have "prefix w s" by simp
  with Cons show ?thesis
    by (subst search_from.simps) (simp add: ends_months group_text)
qed

lemma vocabulary_nonempty: "w \<in> set time_vocabulary \<Longrightarrow> w \<noteq> []"
  by (auto simp: time_vocabulary_def)

lemma search_months_None:
  "(search_from False months p s i = None) = (\<forall>w \<in> set time_vocabulary. \<not> sublist w s)"
proof (induction s arbitrary: p i)
  case Nil
  have "filter (\<lambda>w. prefix w []) time_vocabulary = []"
    by (auto simp: filter_empty_conv vocabulary_nonempty)
  then show ?case
    by (subst search_months) (auto simp: vocabulary_nonempty)
next
  case (Cons c cs)
  show ?case
  proof (cases "filter (\<lambda>w. prefix w (c # cs)) time_vocabulary")
    case Nil
    then have n: "\<forall>w \<in> set time_vocabulary. \<not> prefix w (c # cs)"
      by (simp add: filter_empty_conv)
    have "(search_from False months p (c # cs) i = None)
            = (search_from False months (Some c) cs (Suc i) = None)"
      by (subst search_months) (simp add: Nil)
    with Cons.IH n show ?thesis by (auto simp: sublist_Cons_right)
  next
    case (Cons w ws)
    then have "w \<in> set (filter (\<lambda>w. prefix w (c # cs)) time_vocabulary)" by simp
    then have "w \<in> set time_vocabulary" "prefix w (c # cs)" by simp_all
    then have "\<exists>w \<in> set time_vocabulary. sublist w (c # cs)"
      by (auto simp: sublist_Cons_right)
    moreover have "search_from False months p (c # cs) i \<noteq> None"
      by (subst search_months) (simp add: Cons)
    ultimately show ?thesis by blast
  qed
qed

lemma vocabulary_prefix_free_all:
  "list_all (\<lambda>v. list_all (\<lambda>w. prefix v w \<longrightarrow> v = w) time_vocabulary) time_vocabulary"
  by code_simp

lemma vocabulary_prefix_free:
  "v \<in> set time_vocabulary \<Longrightarrow> w \<in> set time_vocabulary \<Longrightarrow> prefix v w \<Longrightarrow> v = w"
  using vocabulary_prefix_free_all unfolding list_all_iff by blast

lemma same_start_same_word:
  assumes "v \<in> set time_vocabulary" "w \<in> set time_vocabulary"
    and "prefix v s" "prefix w s"
  shows "v = w"
proof -
  from assms(3,4) have "prefix v w \<or> prefix w v" by (rule prefix_same_cases)
  with assms(1,2) show ?thesis by (auto dest: vocabulary_prefix_free)
qed

lemma search_months_Some:
  "search_from False months p s i = Some m \<Longrightarrow>
     \<exists>w pre post. m_group1 m = Some w \<and> w \<in> set time_vocabulary \<and> s = pre @ w @ post \<and>
       (\<forall>v \<in> set time_vocabulary. \<forall>pre' post'. s = pre' @ v @ post' \<longrightarrow>
          length pre < length pre' \<or> (pre' = pre \<and> v = w))"
proof (induction s arbitrary: p i)
  case Nil
  have "filter (\<lambda>w. prefix w []) time_vocabulary = []"
    by (auto simp: filter_empty_conv vocabulary_nonempty)
  then have "search_from False months p [] i = None"
    by (subst search_months) simp
  with Nil show ?case by simp
next
  case (Cons c cs)
  show ?case
  proof (cases "filter (\<lambda>w. prefix w (c # cs)) time_vocabulary")
    case Nil
    then have n: "\<forall>w \<in> set time_vocabulary. \<not> prefix w (c # cs)"
      by (simp add: filter_empty_conv)
    have "search_from False months p (c # cs) i = search_from False months (Some c) cs (Suc i)"
      by (subst search_months) (simp add: Nil)
    with Cons.prems have "search_from False months (Some c) cs (Suc i) = Some m" by simp
    from Cons.IH [OF this] obtain w pre post where
      h: "m_group1 m = Some w" "w \<in> set time_vocabulary" "cs = pre @ w @ post"
      and l: "\<forall>v \<in> set time_vocabulary. \<forall>pre' post'. cs = pre' @ v @ post' \<longrightarrow>
                length pre < length pre' \<or> (pre' = pre \<and> v = w)"
      by blast
    have "\<forall>v \<in> set time_vocabulary. \<forall>pre' post'. c # cs = pre' @ v @ post' \<longrightarrow>
            length (c # pre) < length pre' \<or> (pre' = c # pre \<and> v = w)"
    proof (intro ballI allI impI)
      fix v pre' post'
      assume v: "v \<in> set time_vocabulary" and e: "c # cs = pre' @ v @ post'"
      show "length (c # pre) < length pre' \<or> (pre' = c # pre \<and> v = w)"
      proof (cases pre')
        case Nil
        with e have "prefix v (c # cs)" by (simp add: prefix_def)
        with n v show ?thesis by blast
      next
        case (Cons d ds)
        with e have "d = c" "cs = ds @ v @ post'" by simp_all
        with l v have "length pre < length ds \<or> (ds = pre \<and> v = w)" by blast
        with Cons \<open>d = c\<close> show ?thesis by auto
      qed
    qed
    moreover have "c # cs = (c # pre) @ w @ post" using h(3) by simp
    ultimately show ?thesis using h(1,2) by blast
  next
    case (Cons w ws)
    then have "w \<in> set (filter (\<lambda>w. prefix w (c # cs)) time_vocabulary)" by simp
    then have w: "w \<in> set time_vocabulary" "prefix w (c # cs)" by simp_all
    then obtain post where post: "c # cs = [] @ w @ post" by (auto simp: prefix_def)
    have "search_from False months p (c # cs) i =
            Some \<lparr>m_start = i, group0 = w, m_group1 = Some w\<rparr>"
      by (subst search_months) (simp add: Cons)
    with Cons.prems have g: "m_group1 m = Some w" by auto
    have "\<forall>v \<in> set time_vocabulary. \<forall>pre' post'. c # cs = pre' @ v @ post' \<longrightarrow>
            length ([]::string) < length pre' \<or> (pre' = [] \<and> v = w)"
    proof (intro ballI allI impI)
      fix v pre' post'
      assume v: "v \<in> set time_vocabulary" and e: "c # cs = pre' @ v @ post'"
      show "length ([]::string) < length pre' \<or> (pre' = [] \<and> v = w)"
      proof (cases pre')
        case Nil
        with e have "prefix v (c # cs)" by (simp add: prefix_def)
        with v w have "v = w" by (blast intro: same_start_same_word)
        with Nil show ?thesis by simp
      next
        case (Cons d ds)
        then show ?thesis by simp
      qed
    qed
    with g w(1) post show ?thesis by blast
  qed
qed

lemma time_extract:
  "time (extract_metrics text) =
     (case search_from False months None (lower text) 0 of
        None \<Rightarrow> None | Some tm \<Rightarrow> m_group1 tm)"
  by (simp add: extract_metrics_def Let_def re_search_def)

text \<open>
  C6 (as the code has it). For every input text, time detection searches the lower-cased
  text for the full month names and the phrases today, now, yesterday, \<open>"last week"\<close>,
  \<open>"this week"\<close> (no abbreviation of a month is in the vocabulary). The time is absent
  exactly when no word of the vocabulary occurs in the lower-cased text. When the time is
  \<open>w\<close>, then \<open>w\<close> is a word of the vocabulary that occurs in the lower-cased text, and
  the first match wins: every occurrence of a word of the vocabulary starts further to
  the right, or is this occurrence of \<open>w\<close> itself.
\<close>

theorem time_detection:
  "((time (extract_metrics text) = None)
      = (\<forall>w \<in> set time_vocabulary. \<not> sublist w (lower text)))
   \<and> (time (extract_metrics text) = Some w \<longrightarrow>
        w \<in> set time_vocabulary \<and>
        (\<exists>pre post. lower text = pre @ w @ post \<and>
           (\<forall>v \<in> set time_vocabulary. \<forall>pre' post'. lower text = pre' @ v @ post' \<longrightarrow>
              length pre < length pre' \<or> (pre' = pre \<and> v = w))))"
proof (cases "search_from False months None (lower text) 0")
  case None
  then have "time (extract_metrics text) = None" by (simp add: time_extract)
  moreover from None have "\<forall>w \<in> set time_vocabulary. \<not> sublist w (lower text)"
    by (simp add: search_months_None)
  ultimately show ?thesis by simp
next
  case (Some m)
  from search_months_Some [OF Some] obtain u pre post where
    h: "m_group1 m = Some u" "u \<in> set time_vocabulary" "lower text = pre @ u @ post"
    and l: "\<forall>v \<in> set time_vocabulary. \<forall>pre' post'. lower text = pre' @ v @ post' \<longrightarrow>
          length pre < length pre' \<or> (pre' = pre \<and> v = u)"
    by blast
  have t: "time (extract_metrics text) = Some u" by (simp add: time_extract Some h(1))
  have "sublist u (lower text)" using h(3) by (auto simp: sublist_def)
  with h(2) have a: "(time (extract_metrics text) = None)
      = (\<forall>w \<in> set time_vocabulary. \<not> sublist w (lower text))"
    using t by auto
  have b: "time (extract_metrics text) = Some w \<longrightarrow>
        w \<in> set time_vocabulary \<and>
        (\<exists>pre post. lower text = pre @ w @ post \<and>
           (\<forall>v \<in> set time_vocabulary. \<forall>pre' post'. lower text = pre' @ v @ post' \<longrightarrow>
              length pre < length pre' \<or> (pre' = pre \<and> v = w)))"
  proof
    assume "time (extract_metrics text) = Some w"
    with t have "w = u" by simp
    with h l show "w \<in> set time_vocabulary \<and>
        (\<exists>pre post. lower text = pre @ w @ post \<and>
           (\<forall>v \<in> set time_vocabulary. \<forall>pre' post'. lower text = pre' @ v @ post' \<longrightarrow>
              length pre < length pre' \<or> (pre' = pre \<and> v = w)))"
      by blast
  qed
  from a b show ?thesis by (rule conjI)
qed

lemma yesterday_or_today:
  "time (extract_metrics ''Rain in Paris yesterday or today'') = Some ''yesterday''"
  by code_simp

text \<open>In \<open>"Rain in Paris yesterday or today"\<close> the time is the leftmost word, yesterday.\<close>

theorem time_detection_witness:
  "time (extract_metrics ''Rain in Paris yesterday or today'') = Some ''yesterday''
   \<and> ''yesterday'' \<in> set time_vocabulary
   \<and> (\<exists>pre post. lower ''Rain in Paris yesterday or today'' = pre @ ''yesterday'' @ post \<and>
         (\<forall>v \<in> set time_vocabulary. \<forall>pre' post'.
            lower ''Rain in Paris yesterday or today'' = pre' @ v @ post' \<longrightarrow>
            length pre < length pre' \<or> (pre' = pre \<and> v = ''yesterday'')))"
proof -
  note t = time_detection [of "''Rain in Paris yesterday or today''" "''yesterday''"]
  from t have i: "time (extract_metrics ''Rain in Paris yesterday or today'') = Some ''yesterday'' \<longrightarrow>
        ''yesterday'' \<in> set time_vocabulary \<and>
        (\<exists>pre post. lower ''Rain in Paris yesterday or today'' = pre @ ''yesterday'' @ post \<and>
           (\<forall>v \<in> set time_vocabulary. \<forall>pre' post'.
              lower ''Rain in Paris yesterday or today'' = pre' @ v @ post' \<longrightarrow>
              length pre < length pre' \<or> (pre' = pre \<and> v = ''yesterday'')))"
    by (rule conjunct2)
  from i yesterday_or_today have "''yesterday'' \<in> set time_vocabulary \<and>
        (\<exists>pre post. lower ''Rain in Paris yesterday or today'' = pre @ ''yesterday'' @ post \<and>
           (\<forall>v \<in> set time_vocabulary. \<forall>pre' post'.
              lower ''Rain in Paris yesterday or today'' = pre' @ v @ post' \<longrightarrow>
              length pre < length pre' \<or> (pre' = pre \<and> v = ''yesterday'')))"
    by (rule mp)
  with yesterday_or_today show ?thesis by (rule conjI)
qed

text \<open>
  C6 as the spec states it fails for the standard abbreviations of the month names: in
  \<open>"Temperature in Paris in Jan"\<close> no time is detected.
\<close>

theorem month_abbreviation_counterexample:
  "time (extract_metrics ''Temperature in Paris in Jan'') = None"
  by code_simp

section \<open>The splitter\<close>

lemma code_inject: "(code c = code d) = (c = d)"
  by (simp add: code_def)

lemma lower_char_delimiter:
  assumes "d \<in> set '',;/|''"
  shows "(lower_char c = lower_char d) = (c = d)"
proof -
  from assms have "code d = 44 \<or> code d = 59 \<or> code d = 47 \<or> code d = 124"
    by (auto simp: code_def)
  then have "(code (lower_char c) = code (lower_char d)) = (code c = code d)"
    by (auto simp: code_lower_char)
  then show ?thesis by (simp only: code_inject)
qed

lemma lower_and: "lower ''and'' = ''and''"
  by code_simp

lemma space_not_a: "isspace x \<Longrightarrow> lower_char x \<noteq> CHR ''a''"
proof
  assume s: "isspace x" and "lower_char x = CHR ''a''"
  then have "code (lower_char x) = 97" by (simp add: code_def)
  with s show False by (auto simp: code_lower_char isspace_def Let_def split: if_splits)
qed

lemma space_not_delimiter: "isspace x \<Longrightarrow> x \<notin> set '',;/|''"
  by (auto simp: isspace_def code_def Let_def)

lemma str_ok_delimiter:
  assumes "d \<in> set '',;/|''"
  shows "str_ok True [d] s = (case s of [] \<Rightarrow> False | c # cs \<Rightarrow> c = d)"
  using lower_char_delimiter [OF assms]
  by (cases s) (simp_all add: str_ok_def lower_def)

lemma str_ok_and: "str_ok True ''and'' s = (lower (take 3 s) = ''and'')"
proof -
  have "length ''and'' = 3" by simp
  then show ?thesis unfolding str_ok_def by (simp only: lower_and if_True)
qed

lemma str_ok_and_space: "isspace x \<Longrightarrow> \<not> str_ok True ''and'' (x # xs)"
proof
  assume s: "isspace x" and "str_ok True ''and'' (x # xs)"
  then have "lower (take 3 (x # xs)) = ''and''" by (simp only: str_ok_and)
  then have "lower_char x = CHR ''a''" by (simp add: lower_def numeral_3_eq_3)
  with space_not_a [OF s] show False by simp
qed

lemma rest_advance: "rest (advance k st) = drop k (rest st)"
  by (simp add: advance_def)

lemma atom_ok_Space: "atom_ok Space = isspace"
  by (rule ext) simp

lemma ends_Cat_single: "ends ic (Cat [r]) = ends ic r"
proof (rule ext)
  fix st
  have "ends ic (Cat []) = (\<lambda>st. [st])" by (rule ext) simp
  then show "ends ic (Cat [r]) st = ends ic r st" by (simp add: concat_map_singleton)
qed

lemma ends_and_tail:
  "ends True (Cat [Str ''and'', Rep Space 1]) st =
     (if str_ok True ''and'' (rest st)
      then map (\<lambda>j. advance j (advance 3 st))
             (rev [1 ..< Suc (length (takeWhile isspace (drop 3 (rest st))))])
      else [])"
proof -
  have "ends True (Cat [Str ''and'', Rep Space 1]) st =
          concat (map (ends True (Cat [Rep Space 1])) (ends True (Str ''and'') st))"
    by (rule ends.simps(6))
  also have "\<dots> = concat (map (ends True (Rep Space 1)) (ends True (Str ''and'') st))"
    by (simp only: ends_Cat_single)
  also have "\<dots> = (if str_ok True ''and'' (rest st)
      then map (\<lambda>j. advance j (advance 3 st))
             (rev [1 ..< Suc (length (takeWhile isspace (drop 3 (rest st))))])
      else [])"
    by (simp add: atom_ok_Space rest_advance numeral_3_eq_3)
  finally show ?thesis .
qed

lemma space_run_nth:
  assumes "k < length (takeWhile isspace s)"
  shows "\<exists>x xs. drop k s = x # xs \<and> isspace x"
proof -
  have le: "length (takeWhile isspace s) \<le> length s" by (rule length_takeWhile_le)
  with assms have k: "k < length s" by simp
  have "takeWhile isspace s ! k \<in> set (takeWhile isspace s)" using assms by simp
  then have "isspace (takeWhile isspace s ! k)" by (rule set_takeWhileD [THEN conjunct2])
  then have "isspace (s ! k)" using assms by (simp add: takeWhile_nth)
  moreover have "drop k s = s ! k # drop (Suc k) s" using k by (simp add: Cons_nth_drop_Suc)
  ultimately show ?thesis by blast
qed

lemma and_tail_inside_run:
  assumes "k < length (takeWhile isspace (rest st))"
  shows "ends True (Cat [Str ''and'', Rep Space 1]) (advance k st) = []"
proof -
  from space_run_nth [OF assms] obtain x xs where
    "drop k (rest st) = x # xs" "isspace x" by blast
  then have "\<not> str_ok True ''and'' (rest (advance k st))"
    by (simp add: rest_advance str_ok_and_space)
  then show ?thesis by (simp only: ends_and_tail if_False)
qed

lemma ends_and_alternative:
  "ends True (Cat [Rep Space 1, Str ''and'', Rep Space 1]) st =
     (if length (takeWhile isspace (rest st)) = 0 then []
      else ends True (Cat [Str ''and'', Rep Space 1])
             (advance (length (takeWhile isspace (rest st))) st))"
proof -
  let ?m = "length (takeWhile isspace (rest st))"
  let ?T = "ends True (Cat [Str ''and'', Rep Space 1])"
  have "ends True (Cat [Rep Space 1, Str ''and'', Rep Space 1]) st =
          concat (map ?T (ends True (Rep Space 1) st))"
    by (rule ends.simps(6))
  also have "\<dots> = concat (map (\<lambda>k. ?T (advance k st)) (rev [1 ..< Suc ?m]))"
    by (simp add: atom_ok_Space comp_def del: ends.simps(6))
  also have "\<dots> = (if ?m = 0 then [] else ?T (advance ?m st))"
  proof (cases "?m = 0")
    case True
    then show ?thesis by (simp del: ends.simps)
  next
    case False
    then have "Suc 0 \<le> ?m" by (cases "takeWhile isspace (rest st)") simp_all
    then have "[1 ..< Suc ?m] = [1 ..< ?m] @ [?m]" by simp
    then have r: "rev [1 ..< Suc ?m] = ?m # rev [1 ..< ?m]" by simp
    have "\<forall>k \<in> set (rev [1 ..< ?m]). ?T (advance k st) = []"
    proof
      fix k
      assume "k \<in> set (rev [1 ..< ?m])"
      then have "k < ?m" by simp
      then show "?T (advance k st) = []" by (rule and_tail_inside_run)
    qed
    then have "concat (map (\<lambda>k. ?T (advance k st)) (rev [1 ..< ?m])) = []"
      by (simp only: concat_eq_Nil_conv set_map) blast
    then have "concat (map (\<lambda>k. ?T (advance k st)) (?m # rev [1 ..< ?m])) = ?T (advance ?m st)"
      by (simp only: list.map concat.simps append_Nil2)
    with False show ?thesis unfolding r by (simp only: if_False)
  qed
  finally show ?thesis .
qed

lemma ends_SPLIT_RE:
  "ends True SPLIT_RE \<lparr>prev = p, rest = s, group1 = g\<rparr> =
     ends True (Cat [Rep Space 1, Str ''and'', Rep Space 1]) \<lparr>prev = p, rest = s, group1 = g\<rparr> @
     concat (map (\<lambda>d. if str_ok True [d] s
                       then [advance (Suc 0) \<lparr>prev = p, rest = s, group1 = g\<rparr>] else [])
               '',;/|'')"
  unfolding SPLIT_RE_def by (simp del: ends.simps(6))

lemma delimiter_part_empty:
  assumes "case s of [] \<Rightarrow> True | c # cs \<Rightarrow> c \<notin> set '',;/|''"
  shows "concat (map (\<lambda>d. if str_ok True [d] s then [advance (Suc 0) st] else []) '',;/|'') = []"
  using assms by (cases s) (auto simp: str_ok_delimiter)

lemma delimiter_part_hit:
  assumes "c \<in> set '',;/|''"
  shows "\<exists>sts. concat (map (\<lambda>d. if str_ok True [d] (c # cs) then [advance (Suc 0) st] else [])
            '',;/|'') = advance (Suc 0) st # sts"
  using assms by (auto simp: str_ok_delimiter)

lemma and_alternative_no_space:
  assumes "case s of [] \<Rightarrow> True | c # cs \<Rightarrow> \<not> isspace c"
  shows "ends True (Cat [Rep Space 1, Str ''and'', Rep Space 1])
           \<lparr>prev = p, rest = s, group1 = g\<rparr> = []"
proof -
  from assms have "takeWhile isspace s = []" by (cases s) auto
  then show ?thesis by (simp only: ends_and_alternative) simp
qed

lemma and_alternative_cases:
  fixes st :: mstate
  defines "n \<equiv> and_separator (rest st)"
  shows "(n = 0 \<longrightarrow> ends True (Cat [Rep Space 1, Str ''and'', Rep Space 1]) st = []) \<and>
         (n \<noteq> 0 \<longrightarrow> n \<le> length (rest st) \<and>
            (\<exists>st' sts. ends True (Cat [Rep Space 1, Str ''and'', Rep Space 1]) st = st' # sts \<and>
               rest st' = drop n (rest st)))"
proof -
  let ?s = "rest st"
  let ?m = "length (takeWhile isspace ?s)"
  let ?r = "dropWhile isspace ?s"
  let ?m2 = "length (takeWhile isspace (drop 3 ?r))"
  have r: "?r = drop ?m ?s" by (rule dropWhile_eq_drop)
  have n: "n = (if ?m \<noteq> 0 \<and> lower (take 3 ?r) = ''and'' \<and> ?m2 \<noteq> 0 then ?m + 3 + ?m2 else 0)"
    unfolding n_def and_separator_def Let_def by simp
  have e: "ends True (Cat [Rep Space 1, Str ''and'', Rep Space 1]) st =
      (if ?m = 0 then []
       else if lower (take 3 ?r) = ''and''
            then map (\<lambda>j. advance j (advance 3 (advance ?m st))) (rev [1 ..< Suc ?m2])
            else [])"
    by (simp only: ends_and_alternative ends_and_tail rest_advance str_ok_and r)
  show ?thesis
  proof (cases "?m \<noteq> 0 \<and> lower (take 3 ?r) = ''and'' \<and> ?m2 \<noteq> 0")
    case False
    with n have "n = 0" by simp
    moreover from False e have "ends True (Cat [Rep Space 1, Str ''and'', Rep Space 1]) st = []"
      by (auto simp del: ends.simps)
    ultimately show ?thesis by simp
  next
    case True
    with n have nn: "n = ?m + 3 + ?m2" by simp
    from True have "Suc 0 \<le> ?m2" by (simp add: Suc_le_eq)
    then have "[1 ..< Suc ?m2] = [1 ..< ?m2] @ [?m2]" by simp
    then have "rev [1 ..< Suc ?m2] = ?m2 # rev [1 ..< ?m2]" by simp
    with True e have
      "ends True (Cat [Rep Space 1, Str ''and'', Rep Space 1]) st =
         advance ?m2 (advance 3 (advance ?m st)) #
         map (\<lambda>j. advance j (advance 3 (advance ?m st))) (rev [1 ..< ?m2])"
      by (simp del: ends.simps)
    moreover have "rest (advance ?m2 (advance 3 (advance ?m st))) = drop n ?s"
      by (simp add: rest_advance nn add.commute add.left_commute)
    moreover have "n \<le> length ?s"
    proof -
      have "?m2 \<le> length (drop 3 ?r)" by (rule length_takeWhile_le)
      moreover from True have "length (lower (take 3 ?r)) = 3" by simp
      then have "3 \<le> length ?r" by (simp add: lower_def)
      moreover have "length ?r = length ?s - ?m" by (simp add: r)
      moreover have "?m \<le> length ?s" by (rule length_takeWhile_le)
      ultimately show ?thesis unfolding nn by simp
    qed
    ultimately show ?thesis using nn by (simp del: ends.simps)
  qed
qed

lemma ends_SPLIT_RE_none:
  assumes "separator_at s = 0"
  shows "ends True SPLIT_RE \<lparr>prev = p, rest = s, group1 = g\<rparr> = []"
proof -
  let ?st = "\<lparr>prev = p, rest = s, group1 = g\<rparr>"
  have c: "case s of [] \<Rightarrow> True | c # cs \<Rightarrow> c \<notin> set '',;/|''"
    using assms by (cases s) (auto simp: separator_at_def split: if_splits)
  have "and_separator (rest ?st) = 0"
  proof (cases s)
    case Nil
    then show ?thesis by (simp add: and_separator_def)
  next
    case (Cons c cs)
    with assms show ?thesis by (auto simp: separator_at_def split: if_splits)
  qed
  then have a: "ends True (Cat [Rep Space 1, Str ''and'', Rep Space 1]) ?st = []"
    using and_alternative_cases [of ?st] by blast
  have d: "concat (map (\<lambda>d. if str_ok True [d] s then [advance (Suc 0) ?st] else []) '',;/|'') = []"
    using c by (rule delimiter_part_empty)
  show ?thesis by (simp only: ends_SPLIT_RE a d append_Nil)
qed

lemma ends_SPLIT_RE_some:
  assumes "separator_at s \<noteq> 0"
  shows "separator_at s \<le> length s \<and>
         (\<exists>st' sts. ends True SPLIT_RE \<lparr>prev = p, rest = s, group1 = g\<rparr> = st' # sts \<and>
            rest st' = drop (separator_at s) s)"
proof (cases s)
  case Nil
  with assms show ?thesis by (simp add: separator_at_def)
next
  case (Cons c cs)
  let ?st = "\<lparr>prev = p, rest = s, group1 = g\<rparr>"
  show ?thesis
  proof (cases "c \<in> set '',;/|''")
    case True
    then have n: "separator_at s = 1" by (simp add: separator_at_def Cons)
    from True have "\<not> isspace c" using space_not_delimiter by blast
    then have "ends True (Cat [Rep Space 1, Str ''and'', Rep Space 1]) ?st = []"
      by (intro and_alternative_no_space) (simp add: Cons)
    moreover from delimiter_part_hit [OF True] obtain sts where
      "concat (map (\<lambda>d. if str_ok True [d] (c # cs) then [advance (Suc 0) ?st] else [])
            '',;/|'') = advance (Suc 0) ?st # sts" by blast
    ultimately have "ends True SPLIT_RE ?st = advance (Suc 0) ?st # sts"
      by (simp only: ends_SPLIT_RE Cons append_Nil)
    moreover have "rest (advance (Suc 0) ?st) = drop (separator_at s) s"
      by (simp add: rest_advance n)
    ultimately show ?thesis using n Cons by auto
  next
    case False
    then have n: "separator_at s = and_separator s" by (simp add: separator_at_def Cons)
    with assms have "and_separator (rest ?st) \<noteq> 0" by simp
    with and_alternative_cases [of ?st] obtain st' sts where
      h: "and_separator s \<le> length s"
         "ends True (Cat [Rep Space 1, Str ''and'', Rep Space 1]) ?st = st' # sts"
         "rest st' = drop (and_separator s) s"
      by auto
    have "concat (map (\<lambda>d. if str_ok True [d] s then [advance (Suc 0) ?st] else []) '',;/|'') = []"
      using False by (intro delimiter_part_empty) (simp add: Cons)
    with h(2) have "ends True SPLIT_RE ?st = st' # sts"
      by (simp only: ends_SPLIT_RE append_Nil2)
    with h(1,3) n show ?thesis by auto
  qed
qed

lemma split_from_pieces: "split_from True SPLIT_RE p s cur = pieces s cur"
proof (induction s cur arbitrary: p rule: pieces.induct)
  case (1 cur)
  have "separator_at [] = 0" by (simp add: separator_at_def)
  then have "ends True SPLIT_RE \<lparr>prev = p, rest = [], group1 = None\<rparr> = []"
    by (rule ends_SPLIT_RE_none)
  then show ?case by (subst split_from.simps) simp
next
  case (2 c cs cur)
  let ?s = "c # cs"
  show ?case
  proof (cases "separator_at ?s = 0")
    case True
    then have "ends True SPLIT_RE \<lparr>prev = p, rest = ?s, group1 = None\<rparr> = []"
      by (rule ends_SPLIT_RE_none)
    then have "split_from True SPLIT_RE p ?s cur = split_from True SPLIT_RE (Some c) cs (cur @ [c])"
      by (subst split_from.simps) simp
    with True "2.IH"(1) show ?thesis by simp
  next
    case False
    from ends_SPLIT_RE_some [OF False, of p None] obtain st' sts where
      le: "separator_at ?s \<le> length ?s"
      and e: "ends True SPLIT_RE \<lparr>prev = p, rest = ?s, group1 = None\<rparr> = st' # sts"
      and r: "rest st' = drop (separator_at ?s) ?s"
      by blast
    from le have l: "length ?s - length (rest st') = separator_at ?s"
      unfolding r by simp
    have d: "drop (separator_at ?s) ?s = drop (separator_at ?s - 1) cs"
      using False by (cases "separator_at ?s") simp_all
    have "split_from True SPLIT_RE p ?s cur =
            cur # split_from True SPLIT_RE (prev st') (drop (separator_at ?s) ?s) []"
      using False by (subst split_from.simps) (simp only: e l list.case if_False)
    with False "2.IH"(2) d show ?thesis by simp
  qed
qed

lemma strip_chars_prefix: "prefix (rev (dropWhile P (rev t))) t"
proof -
  have "rev (dropWhile P (rev t)) @ rev (takeWhile P (rev t)) =
          rev (takeWhile P (rev t) @ dropWhile P (rev t))"
    by (simp only: rev_append)
  also have "\<dots> = rev (rev t)" by (simp only: takeWhile_dropWhile_id)
  also have "\<dots> = t" by simp
  finally have "t = rev (dropWhile P (rev t)) @ rev (takeWhile P (rev t))" by (rule sym)
  then show ?thesis by (rule prefixI)
qed

lemma sublist_strip_chars: "sublist (strip_chars P s) s"
proof -
  have "prefix (strip_chars P s) (dropWhile P s)"
    unfolding strip_chars_def by (rule strip_chars_prefix)
  then have "sublist (strip_chars P s) (dropWhile P s)" by (rule prefix_imp_sublist)
  moreover have "sublist (dropWhile P s) s"
    by (rule suffix_imp_sublist) (rule suffix_dropWhile)
  ultimately show ?thesis by (rule sublist_order.order.trans)
qed

lemma strip_chars_idem: "strip_chars P (strip_chars P s) = strip_chars P s"
proof -
  let ?t = "dropWhile P s"
  let ?u = "rev (dropWhile P (rev ?t))"
  have u: "strip_chars P s = ?u" by (simp add: strip_chars_def)
  have d: "dropWhile P ?u = ?u"
  proof (cases ?u)
    case Nil
    show ?thesis unfolding Nil by simp
  next
    case (Cons x xs)
    from strip_chars_prefix [of P ?t] obtain v where "?t = ?u @ v" by (auto simp: prefix_def)
    with Cons have t: "?t = x # xs @ v" by simp
    then have "?t \<noteq> []" by simp
    then have "\<not> P (hd ?t)" by (rule hd_dropWhile)
    with t have "\<not> P x" by simp
    with Cons show ?thesis by simp
  qed
  have "strip_chars P ?u = rev (dropWhile P (rev (dropWhile P ?u)))"
    by (simp only: strip_chars_def)
  also have "\<dots> = rev (dropWhile P (rev ?u))" by (simp only: d)
  also have "\<dots> = ?u" by simp
  finally show ?thesis by (simp only: u)
qed

lemma strip_Nil: "strip [] = []"
  by (simp add: strip_def strip_chars_def)

lemma split_locations_eq_spec: "split_locations raw = split_spec raw"
proof (cases raw)
  case None
  then show ?thesis by (simp add: split_locations_def split_spec_def)
next
  case (Some s)
  have f: "(\<lambda>p. p \<noteq> [] \<and> strip p \<noteq> []) = (\<lambda>p. strip p \<noteq> [])"
    by (rule ext) (auto simp: strip_Nil)
  have "map strip (filter (\<lambda>p. p \<noteq> [] \<and> strip p \<noteq> []) (pieces s [])) =
          filter (\<lambda>p. p \<noteq> []) (map strip (pieces s []))"
    by (simp only: f filter_map comp_def)
  moreover have "filter (\<lambda>p. p \<noteq> []) (map strip (pieces [] [])) = []"
    by (simp add: strip_Nil)
  ultimately show ?thesis
    by (simp add: Some split_locations_def split_spec_def re_split_def split_from_pieces)
qed

lemma separator_of_delimiter: "c \<in> set '',;/|'' \<Longrightarrow> separator_at (c # cs) \<noteq> 0"
  by (simp add: separator_at_def)

lemma pieces_no_delimiter:
  "set cur \<inter> set '',;/|'' = {} \<Longrightarrow> q \<in> set (pieces s cur) \<Longrightarrow> set q \<inter> set '',;/|'' = {}"
proof (induction s cur rule: pieces.induct)
  case (1 cur)
  then show ?case by simp
next
  case (2 c cs cur)
  show ?case
  proof (cases "separator_at (c # cs) = 0")
    case True
    then have "c \<notin> set '',;/|''" using separator_of_delimiter by blast
    with "2.prems"(1) have "set (cur @ [c]) \<inter> set '',;/|'' = {}" by auto
    moreover from True "2.prems"(2) have "q \<in> set (pieces cs (cur @ [c]))" by simp
    ultimately show ?thesis using True "2.IH"(1) by blast
  next
    case False
    with "2.prems"(2) have "q = cur \<or> q \<in> set (pieces (drop (separator_at (c # cs) - 1) cs) [])"
      by simp
    then show ?thesis
    proof
      assume "q = cur"
      with "2.prems"(1) show ?thesis by simp
    next
      assume "q \<in> set (pieces (drop (separator_at (c # cs) - 1) cs) [])"
      moreover have "set ([]::string) \<inter> set '',;/|'' = {}" by simp
      ultimately show ?thesis using False "2.IH"(2) by blast
    qed
  qed
qed

lemma pieces_in_order: "subseq (concat (pieces s cur)) (cur @ s)"
proof (induction s cur rule: pieces.induct)
  case (1 cur)
  then show ?case by simp
next
  case (2 c cs cur)
  show ?case
  proof (cases "separator_at (c # cs) = 0")
    case True
    with "2.IH"(1) show ?thesis by simp
  next
    case False
    let ?k = "separator_at (c # cs) - 1"
    from False "2.IH"(2) have "subseq (concat (pieces (drop ?k cs) [])) (drop ?k cs)" by simp
    moreover have "subseq (drop ?k cs) (c # cs)"
      by (rule suffix_imp_subseq) (simp add: suffix_drop suffix_ConsI)
    ultimately have "subseq (concat (pieces (drop ?k cs) [])) (c # cs)"
      by (rule subseq_order.trans)
    then have "subseq (cur @ concat (pieces (drop ?k cs) [])) (cur @ c # cs)"
      by (simp only: subseq_append')
    with False show ?thesis by simp
  qed
qed

lemma stripped_in_order: "subseq (concat (filter (\<lambda>p. p \<noteq> []) (map strip ps))) (concat ps)"
proof (induction ps)
  case Nil
  then show ?case by simp
next
  case (Cons p ps)
  have s: "subseq (strip p) p"
    unfolding strip_def by (rule sublist_imp_subseq) (rule sublist_strip_chars)
  have "subseq (strip p @ concat (filter (\<lambda>p. p \<noteq> []) (map strip ps))) (p @ concat ps)"
    using s Cons.IH by (rule list_emb_append_mono)
  then show ?case by (cases "strip p = []") simp_all
qed

lemma split_spec_pieces:
  assumes "p \<in> set (split_spec raw)"
  shows "p \<noteq> [] \<and> strip p = p \<and> set p \<inter> set '',;/|'' = {}"
proof (cases raw)
  case None
  with assms show ?thesis by (simp add: split_spec_def)
next
  case (Some s)
  with assms obtain q where q: "q \<in> set (pieces s [])" and p: "p = strip q" "p \<noteq> []"
    by (auto simp: split_spec_def)
  have "set q \<inter> set '',;/|'' = {}"
    using pieces_no_delimiter [of "[]" q s] q by simp
  moreover have "set p \<subseteq> set q"
    unfolding p(1) strip_def by (rule set_mono_sublist) (rule sublist_strip_chars)
  ultimately have "set p \<inter> set '',;/|'' = {}" by blast
  moreover have "strip p = p" unfolding p(1) strip_def by (rule strip_chars_idem)
  ultimately show ?thesis using p(2) by simp
qed

lemma paris_tokyo_london:
  "split_locations (Some ''Paris and Tokyo, London'') = [''Paris'', ''Tokyo'', ''London'']"
  by code_simp

text \<open>
  C9. For every raw location string the splitter gives what the specification says:
  the string is cut, from left to right, at each comma, semicolon, slash and bar and at
  each word \<open>and\<close> (in any case) that has whitespace on both sides, that whitespace
  being part of the separator; each piece is trimmed and the empty pieces are discarded
  (\<open>split_spec\<close>). Every surviving piece is non-empty, trimmed and free of the four
  separator characters; the pieces keep their order: put one behind the other they are a
  subsequence of the input. An absent input yields the empty sequence, and
  \<open>"Paris and Tokyo, London"\<close> yields Paris, Tokyo, London.
\<close>

theorem split_locations_spec:
  "split_locations raw = split_spec raw
   \<and> split_locations None = []
   \<and> list_all (\<lambda>p. p \<noteq> [] \<and> strip p = p \<and> set p \<inter> set '',;/|'' = {}) (split_locations raw)
   \<and> (case raw of None \<Rightarrow> True | Some s \<Rightarrow> subseq (concat (split_locations raw)) s)
   \<and> split_locations (Some ''Paris and Tokyo, London'') = [''Paris'', ''Tokyo'', ''London'']"
proof -
  have a: "split_locations raw = split_spec raw" by (rule split_locations_eq_spec)
  have b: "split_locations None = []" by (simp add: split_locations_def)
  have c: "list_all (\<lambda>p. p \<noteq> [] \<and> strip p = p \<and> set p \<inter> set '',;/|'' = {})
             (split_locations raw)"
    unfolding a list_all_iff using split_spec_pieces by blast
  have d: "case raw of None \<Rightarrow> True | Some s \<Rightarrow> subseq (concat (split_locations raw)) s"
  proof (cases raw)
    case None
    then show ?thesis by simp
  next
    case (Some s)
    have "subseq (concat (filter (\<lambda>p. p \<noteq> []) (map strip (pieces s [])))) (concat (pieces s []))"
      by (rule stripped_in_order)
    moreover have "subseq (concat (pieces s [])) s"
      using pieces_in_order [of s "[]"] by simp
    ultimately have "subseq (concat (filter (\<lambda>p. p \<noteq> []) (map strip (pieces s [])))) s"
      by (rule subseq_order.trans)
    then show ?thesis unfolding a by (simp add: Some split_spec_def)
  qed
  show ?thesis by (intro conjI a b c d paris_tokyo_london)
qed

section \<open>The orchestrator, candidate by candidate\<close>

lemma query_loop_outcomes:
  "query_loop net k metric locs rs es w =
     (case outcomes net k metric locs w of
        (outs, w') \<Rightarrow> ((rs @ results_of outs, es @ errors_of outs), w'))"
proof (induction locs arbitrary: rs es w)
  case Nil
  then show ?case by simp
next
  case (Cons loc locs)
  show ?case
    by (simp add: Cons.IH attempt_def split: prod.splits sum.splits)
qed

lemma outcomes_locations:
  "outcomes net k metric locs w = (outs, w') \<Longrightarrow> map out_location outs = locs"
proof (induction locs arbitrary: w outs w')
  case Nil
  then show ?case by simp
next
  case (Cons loc locs)
  obtain out w1 where a: "attempt net k metric loc w = (out, w1)"
    by (cases "attempt net k metric loc w")
  obtain os w2 where o: "outcomes net k metric locs w1 = (os, w2)"
    by (cases "outcomes net k metric locs w1")
  from Cons.prems a o have outs: "outs = out # os" by simp
  have "out_location out = loc"
    using a by (auto simp: attempt_def out_location_def split: prod.splits sum.splits)
  moreover have "map out_location os = locs" using o by (rule Cons.IH)
  ultimately show ?case by (simp add: outs)
qed

lemma outcomes_append:
  "outcomes net k metric (xs @ ys) w =
     (case outcomes net k metric xs w of
        (outs1, w1) \<Rightarrow>
          (case outcomes net k metric ys w1 of
             (outs2, w2) \<Rightarrow> (outs1 @ outs2, w2)))"
  by (induction xs arbitrary: w) (simp_all split: prod.splits)

lemma outcomes_length:
  "outcomes net k metric locs w = (outs, w') \<Longrightarrow> length outs = length locs"
  using outcomes_locations [of net k metric locs w outs w'] by (metis length_map)

lemma outcomes_own_attempt:
  assumes "outcomes net k metric (pre @ loc # post) w = (outs, w')"
  shows "outs ! length pre = fst (attempt net k metric loc (snd (outcomes net k metric pre w)))"
proof -
  obtain o1 w1 where p: "outcomes net k metric pre w = (o1, w1)"
    by (cases "outcomes net k metric pre w")
  obtain out w2 where a: "attempt net k metric loc w1 = (out, w2)"
    by (cases "attempt net k metric loc w1")
  obtain o3 w3 where q: "outcomes net k metric post w2 = (o3, w3)"
    by (cases "outcomes net k metric post w2")
  have "outcomes net k metric (pre @ loc # post) w = (o1 @ out # o3, w3)"
    by (simp add: outcomes_append p a q)
  with assms have "outs = o1 @ out # o3" by simp
  moreover have "length o1 = length pre" using p by (rule outcomes_length)
  ultimately have "outs ! length pre = out" by (simp add: nth_append)
  with p a show ?thesis by simp
qed

lemma mset_outcomes:
  "mset (map r_location (results_of outs)) + mset (map e_location (errors_of outs))
     = mset (map out_location outs)"
  by (induction outs rule: results_of.induct) (simp_all add: out_location_def)

lemma sanitize_not_empty: "sanitize_location x \<noteq> Some []"
  by (simp add: sanitize_location_def Let_def split: option.splits)

lemma clean_loop_nonempty:
  "[] \<notin> set acc \<Longrightarrow> [] \<notin> set (clean_loop rls acc)"
proof (induction rls arbitrary: acc)
  case Nil
  then show ?case by simp
next
  case (Cons rl rls)
  show ?case
  proof (cases "sanitize_location (Some rl)")
    case None
    with Cons show ?thesis by simp
  next
    case (Some cl)
    with sanitize_not_empty [of "Some rl"] have "cl \<noteq> []" by auto
    with Cons.prems have "[] \<notin> set (acc @ [cl])" by simp
    then have "[] \<notin> set (clean_loop rls (acc @ [cl]))" by (rule Cons.IH)
    with Some show ?thesis by simp
  qed
qed

lemma clean_locations_nonempty: "[] \<notin> set (clean_locations_of lp)"
  unfolding clean_locations_of_def by (rule clean_loop_nonempty) simp

lemma attempt_recorded:
  assumes "k \<noteq> []" "loc \<noteq> []"
  shows "snd (snd (attempt (recording net) (Some k) metric loc (w, seen))) = seen @ [loc]"
  using assms
  by (auto simp: attempt_def call_openweathermap_current_def recording_def
      split: prod.splits sum.splits)

lemma outcomes_recorded:
  assumes "k \<noteq> []"
  shows "[] \<notin> set locs \<Longrightarrow>
         snd (snd (outcomes (recording net) (Some k) metric locs (w, seen))) = seen @ locs"
proof (induction locs arbitrary: w seen)
  case Nil
  then show ?case by simp
next
  case (Cons loc locs)
  obtain out w1 seen1 where a: "attempt (recording net) (Some k) metric loc (w, seen) = (out, (w1, seen1))"
    by (metis surj_pair)
  from Cons.prems have l: "loc \<noteq> []" and r: "[] \<notin> set locs" by auto
  from attempt_recorded [OF assms l, of net metric w seen] a have seen1: "seen1 = seen @ [loc]" by simp
  have i: "snd (snd (outcomes (recording net) (Some k) metric locs (w1, seen1))) = seen1 @ locs"
    using r by (rule Cons.IH)
  obtain os w2 seen2 where
    o: "outcomes (recording net) (Some k) metric locs (w1, seen1) = (os, (w2, seen2))"
    by (metis surj_pair)
  with i have "seen2 = seen1 @ locs" by simp
  with a o seen1 show ?case by simp
qed

lemma api_get_metric_world:
  assumes "lower m \<in> set known_metrics" "nonempty lp" "clean_locations_of lp \<noteq> []"
  shows "snd (api_get_metric net env (Some m) lp w) =
           snd (outcomes net (get_api_key env) (lower m) (clean_locations_of lp) w)"
proof -
  obtain outs w' where o: "outcomes net (get_api_key env) (lower m) (clean_locations_of lp) w = (outs, w')"
    by (cases "outcomes net (get_api_key env) (lower m) (clean_locations_of lp) w")
  then have "query_loop net (get_api_key env) (lower m) (clean_locations_of lp) [] [] w
           = ((results_of outs, errors_of outs), w')"
    by (simp add: query_loop_outcomes)
  from api_get_metric_main [OF assms this] o show ?thesis by simp
qed

text \<open>
  C2. For every metric query that passes the preconditions of the orchestrator (a known
  metric after lower-casing, a location that is present and not empty, at least one
  clean location), whatever the network does: the loop produces exactly one outcome per
  clean location, a result or an error, in the order of the candidates (\<open>outs\<close>, whose
  locations are the clean locations); the outcome of each candidate is that of its own
  attempt, made in the world that the candidates before it have left, whether they
  failed or not; the query ends with the results and the errors of these outcomes, as
  the returned pair or inside the 502 failure; no candidate is dropped (the locations of
  results and errors together are the clean locations). With a credential configured,
  the requests that reach the network are one per clean location, in order: a failure
  never keeps the candidates behind it from being processed.
\<close>

theorem every_candidate_accounted:
  assumes "lower m \<in> set known_metrics" and "nonempty lp"
    and "clean_locations_of lp \<noteq> []"
  shows "(\<exists>outs w'.
      outcomes net (get_api_key env) (lower m) (clean_locations_of lp) w = (outs, w')
    \<and> map out_location outs = clean_locations_of lp
    \<and> (\<forall>pre loc post. clean_locations_of lp = pre @ loc # post \<longrightarrow>
          outs ! length pre =
            fst (attempt net (get_api_key env) (lower m) loc
                  (snd (outcomes net (get_api_key env) (lower m) pre w))))
    \<and> api_get_metric net env (Some m) lp w =
        (if results_of outs = [] \<and> errors_of outs \<noteq> []
         then (Inl (HTTPException 502 (Errors (errors_of outs))), w')
         else (Inr (results_of outs, errors_of outs), w'))
    \<and> mset (map r_location (results_of outs)) + mset (map e_location (errors_of outs))
        = mset (clean_locations_of lp))
   \<and> (nonempty (get_api_key env) \<longrightarrow>
        snd (snd (api_get_metric (recording net) env (Some m) lp (w, [])))
          = clean_locations_of lp)"
proof -
  let ?k = "get_api_key env" and ?cl = "clean_locations_of lp"
  obtain outs w' where o: "outcomes net ?k (lower m) ?cl w = (outs, w')"
    by (cases "outcomes net ?k (lower m) ?cl w")
  have l: "map out_location outs = ?cl" using o by (rule outcomes_locations)
  have own: "\<forall>pre loc post. ?cl = pre @ loc # post \<longrightarrow>
          outs ! length pre =
            fst (attempt net ?k (lower m) loc (snd (outcomes net ?k (lower m) pre w)))"
  proof (intro allI impI)
    fix pre loc post
    assume "?cl = pre @ loc # post"
    with o have "outcomes net ?k (lower m) (pre @ loc # post) w = (outs, w')" by simp
    then show "outs ! length pre =
            fst (attempt net ?k (lower m) loc (snd (outcomes net ?k (lower m) pre w)))"
      by (rule outcomes_own_attempt)
  qed
  have q: "query_loop net ?k (lower m) ?cl [] [] w = ((results_of outs, errors_of outs), w')"
    using o by (simp add: query_loop_outcomes)
  have a: "api_get_metric net env (Some m) lp w =
        (if results_of outs = [] \<and> errors_of outs \<noteq> []
         then (Inl (HTTPException 502 (Errors (errors_of outs))), w')
         else (Inr (results_of outs, errors_of outs), w'))"
    by (rule api_get_metric_main [OF assms q])
  have ms: "mset (map r_location (results_of outs)) + mset (map e_location (errors_of outs))
        = mset ?cl"
    by (simp only: mset_outcomes l)
  have rec: "nonempty ?k \<longrightarrow>
        snd (snd (api_get_metric (recording net) env (Some m) lp (w, []))) = ?cl"
  proof
    assume "nonempty ?k"
    then obtain k where k: "?k = Some k" "k \<noteq> []"
      by (auto simp: nonempty_def split: option.splits)
    have "snd (api_get_metric (recording net) env (Some m) lp (w, [])) =
            snd (outcomes (recording net) ?k (lower m) ?cl (w, []))"
      by (rule api_get_metric_world [OF assms])
    moreover have "snd (snd (outcomes (recording net) (Some k) (lower m) ?cl (w, []))) = [] @ ?cl"
      using k(2) clean_locations_nonempty by (rule outcomes_recorded)
    ultimately show "snd (snd (api_get_metric (recording net) env (Some m) lp (w, []))) = ?cl"
      by (simp add: k(1))
  qed
  from o l own a ms have ex: "\<exists>outs w'.
      outcomes net ?k (lower m) ?cl w = (outs, w')
    \<and> map out_location outs = ?cl
    \<and> (\<forall>pre loc post. ?cl = pre @ loc # post \<longrightarrow>
          outs ! length pre =
            fst (attempt net ?k (lower m) loc (snd (outcomes net ?k (lower m) pre w))))
    \<and> api_get_metric net env (Some m) lp w =
        (if results_of outs = [] \<and> errors_of outs \<noteq> []
         then (Inl (HTTPException 502 (Errors (errors_of outs))), w')
         else (Inr (results_of outs, errors_of outs), w'))
    \<and> mset (map r_location (results_of outs)) + mset (map e_location (errors_of outs))
        = mset ?cl"
    by blast
  from ex rec show ?thesis by (rule conjI)
qed

lemma rome_and_paris:
  "api_get_metric paris_only with_key (Some ''temperature'') (Some ''Rome and Paris'') 0 =
     (Inr ([\<lparr>r_metric = ''temperature'', r_location = ''Paris'', r_value = JFloat 21.5,
              r_units = ''metric (see provider)'', r_provider = ''openweathermap''\<rparr>],
           [\<lparr>e_location = ''Rome'', e_error = ''404 Not Found: city not found''\<rparr>]), 2)"
  by code_simp

lemma rome_and_paris_clean: "clean_locations_of (Some ''Rome and Paris'') = [''Rome'', ''Paris'']"
  by code_simp

text \<open>
  In \<open>"Rome and Paris"\<close> the first candidate fails and the second is still processed:
  one error, one result, two requests.
\<close>

theorem every_candidate_accounted_witness:
  "api_get_metric paris_only with_key (Some ''temperature'') (Some ''Rome and Paris'') 0 =
     (Inr ([\<lparr>r_metric = ''temperature'', r_location = ''Paris'', r_value = JFloat 21.5,
              r_units = ''metric (see provider)'', r_provider = ''openweathermap''\<rparr>],
           [\<lparr>e_location = ''Rome'', e_error = ''404 Not Found: city not found''\<rparr>]), 2)
   \<and> snd (snd (api_get_metric (recording paris_only) with_key (Some ''temperature'')
              (Some ''Rome and Paris'') (0, []))) = [''Rome'', ''Paris'']"
proof -
  have h1: "lower ''temperature'' \<in> set known_metrics" by code_simp
  have h2: "nonempty (Some ''Rome and Paris'')" by code_simp
  have h3: "clean_locations_of (Some ''Rome and Paris'') \<noteq> []"
    by (simp add: rome_and_paris_clean)
  have h4: "nonempty (get_api_key with_key)" by code_simp
  note t = every_candidate_accounted [OF h1 h2 h3, of paris_only with_key 0]
  from t have "nonempty (get_api_key with_key) \<longrightarrow>
        snd (snd (api_get_metric (recording paris_only) with_key (Some ''temperature'')
              (Some ''Rome and Paris'') (0, []))) = clean_locations_of (Some ''Rome and Paris'')"
    by (rule conjunct2)
  from this h4 have "snd (snd (api_get_metric (recording paris_only) with_key (Some ''temperature'')
              (Some ''Rome and Paris'') (0, []))) = clean_locations_of (Some ''Rome and Paris'')"
    by (rule mp)
  then have r: "snd (snd (api_get_metric (recording paris_only) with_key (Some ''temperature'')
              (Some ''Rome and Paris'') (0, []))) = [''Rome'', ''Paris'']"
    by (simp only: rome_and_paris_clean)
  from rome_and_paris r show ?thesis by (rule conjI)
qed

lemma results_of_metric: "outcomes net k metric locs w = (outs, w') \<Longrightarrow>
    list_all (\<lambda>r. r_metric r = metric) (results_of outs)"
proof (induction locs arbitrary: w outs w')
  case Nil
  then show ?case by simp
next
  case (Cons loc locs)
  obtain out w1 where a: "attempt net k metric loc w = (out, w1)"
    by (cases "attempt net k metric loc w")
  obtain os w2 where o: "outcomes net k metric locs w1 = (os, w2)"
    by (cases "outcomes net k metric locs w1")
  from Cons.prems a o have outs: "outs = out # os" by simp
  have i: "list_all (\<lambda>r. r_metric r = metric) (results_of os)" using o by (rule Cons.IH)
  show ?case
  proof (cases out)
    case (Inl e)
    with i outs show ?thesis by simp
  next
    case (Inr r)
    with a have "r_metric r = metric"
      by (auto simp: attempt_def split: prod.splits sum.splits)
    with i outs Inr show ?thesis by simp
  qed
qed

lemma upper_case_temperature:
  "api_get_metric paris_only with_key (Some ''TEMPERATURE'') (Some ''Paris'') 0 =
     (Inr ([\<lparr>r_metric = ''temperature'', r_location = ''Paris'', r_value = JFloat 21.5,
              r_units = ''metric (see provider)'', r_provider = ''openweathermap''\<rparr>], []), 1)"
  by code_simp

text \<open>
  C10. The metric parameter is lower-cased before the membership test, so identifiers
  are accepted in any case: for every string \<open>m\<close>, every network, environment, location
  and world, the query with \<open>m\<close> gives the same outcome as the query with \<open>m\<close>
  lower-cased; when \<open>m\<close> lower-cased is a known metric and the location has a clean
  candidate, the query is not rejected: it runs the loop with the lower-cased metric,
  every result carries the lower-cased metric, and the outcome is the one of the loop.
  \<open>"TEMPERATURE"\<close> lower-cases to \<open>"temperature"\<close>, and the query for it in Paris is
  answered with a temperature result after one request.
\<close>

theorem metric_case_insensitive:
  "api_get_metric net env (Some m) lp w = api_get_metric net env (Some (lower m)) lp w
   \<and> (lower m \<in> set known_metrics \<and> nonempty lp \<and> clean_locations_of lp \<noteq> [] \<longrightarrow>
        (\<exists>results errors w'.
           query_loop net (get_api_key env) (lower m) (clean_locations_of lp) [] [] w
             = ((results, errors), w')
           \<and> list_all (\<lambda>r. r_metric r = lower m) results
           \<and> api_get_metric net env (Some m) lp w =
               (if results = [] \<and> errors \<noteq> []
                then (Inl (HTTPException 502 (Errors errors)), w')
                else (Inr (results, errors), w'))))
   \<and> lower ''TEMPERATURE'' = ''temperature''
   \<and> api_get_metric paris_only with_key (Some ''TEMPERATURE'') (Some ''Paris'') 0 =
       (Inr ([\<lparr>r_metric = ''temperature'', r_location = ''Paris'', r_value = JFloat 21.5,
                r_units = ''metric (see provider)'', r_provider = ''openweathermap''\<rparr>], []), 1)"
proof -
  have a: "api_get_metric net env (Some m) lp w = api_get_metric net env (Some (lower m)) lp w"
    by (simp add: api_get_metric_def lower_idem)
  have b: "lower m \<in> set known_metrics \<and> nonempty lp \<and> clean_locations_of lp \<noteq> [] \<longrightarrow>
        (\<exists>results errors w'.
           query_loop net (get_api_key env) (lower m) (clean_locations_of lp) [] [] w
             = ((results, errors), w')
           \<and> list_all (\<lambda>r. r_metric r = lower m) results
           \<and> api_get_metric net env (Some m) lp w =
               (if results = [] \<and> errors \<noteq> []
                then (Inl (HTTPException 502 (Errors errors)), w')
                else (Inr (results, errors), w')))"
  proof
    assume h: "lower m \<in> set known_metrics \<and> nonempty lp \<and> clean_locations_of lp \<noteq> []"
    obtain outs w' where o:
      "outcomes net (get_api_key env) (lower m) (clean_locations_of lp) w = (outs, w')"
      by (cases "outcomes net (get_api_key env) (lower m) (clean_locations_of lp) w")
    then have q: "query_loop net (get_api_key env) (lower m) (clean_locations_of lp) [] [] w
             = ((results_of outs, errors_of outs), w')"
      by (simp add: query_loop_outcomes)
    have r: "list_all (\<lambda>r. r_metric r = lower m) (results_of outs)"
      using o by (rule results_of_metric)
    have "api_get_metric net env (Some m) lp w =
               (if results_of outs = [] \<and> errors_of outs \<noteq> []
                then (Inl (HTTPException 502 (Errors (errors_of outs))), w')
                else (Inr (results_of outs, errors_of outs), w'))"
      using h q by (intro api_get_metric_main) simp_all
    with q r show "\<exists>results errors w'.
           query_loop net (get_api_key env) (lower m) (clean_locations_of lp) [] [] w
             = ((results, errors), w')
           \<and> list_all (\<lambda>r. r_metric r = lower m) results
           \<and> api_get_metric net env (Some m) lp w =
               (if results = [] \<and> errors \<noteq> []
                then (Inl (HTTPException 502 (Errors errors)), w')
                else (Inr (results, errors), w'))"
      by blast
  qed
  have c: "lower ''TEMPERATURE'' = ''temperature''" by code_simp
  show ?thesis by (intro conjI a b c upper_case_temperature)
qed

lemma paris_clean: "clean_locations_of (Some ''Paris'') = [''Paris'']"
  by code_simp

lemma paris_loop:
  "query_loop paris_only (get_api_key with_key) ''temperature'' [''Paris''] [] [] 0 =
     (([\<lparr>r_metric = ''temperature'', r_location = ''Paris'', r_value = JFloat 21.5,
                r_units = ''metric (see provider)'', r_provider = ''openweathermap''\<rparr>], []), 1)"
  by code_simp

text \<open>The query \<open>"TEMPERATURE"\<close> for Paris passes the preconditions and is answered.\<close>

theorem metric_case_insensitive_witness:
  "lower ''TEMPERATURE'' \<in> set known_metrics \<and> nonempty (Some ''Paris'')
   \<and> clean_locations_of (Some ''Paris'') \<noteq> []
   \<and> api_get_metric paris_only with_key (Some ''TEMPERATURE'') (Some ''Paris'') 0 =
       (Inr ([\<lparr>r_metric = ''temperature'', r_location = ''Paris'', r_value = JFloat 21.5,
                r_units = ''metric (see provider)'', r_provider = ''openweathermap''\<rparr>], []), 1)"
proof -
  let ?R = "[\<lparr>r_metric = ''temperature'', r_location = ''Paris'', r_value = JFloat 21.5,
                r_units = ''metric (see provider)'', r_provider = ''openweathermap''\<rparr>]"
  have l: "lower ''TEMPERATURE'' = ''temperature''" by code_simp
  have h1: "lower ''TEMPERATURE'' \<in> set known_metrics" by code_simp
  have h2: "nonempty (Some ''Paris'')" by code_simp
  have h3: "clean_locations_of (Some ''Paris'') \<noteq> []" by (simp add: paris_clean)
  have h: "lower ''TEMPERATURE'' \<in> set known_metrics \<and> nonempty (Some ''Paris'')
             \<and> clean_locations_of (Some ''Paris'') \<noteq> []"
    by (intro conjI h1 h2 h3)
  note t = metric_case_insensitive [of paris_only with_key "''TEMPERATURE''" "Some ''Paris''" 0]
  from t have "lower ''TEMPERATURE'' \<in> set known_metrics \<and> nonempty (Some ''Paris'')
             \<and> clean_locations_of (Some ''Paris'') \<noteq> [] \<longrightarrow>
        (\<exists>results errors w'.
           query_loop paris_only (get_api_key with_key) (lower ''TEMPERATURE'')
               (clean_locations_of (Some ''Paris'')) [] [] 0 = ((results, errors), w')
           \<and> list_all (\<lambda>r. r_metric r = lower ''TEMPERATURE'') results
           \<and> api_get_metric paris_only with_key (Some ''TEMPERATURE'') (Some ''Paris'') 0 =
               (if results = [] \<and> errors \<noteq> []
                then (Inl (HTTPException 502 (Errors errors)), w')
                else (Inr (results, errors), w')))"
    by (elim conjE)
  from this h obtain results errors w' where
    q: "query_loop paris_only (get_api_key with_key) (lower ''TEMPERATURE'')
               (clean_locations_of (Some ''Paris'')) [] [] 0 = ((results, errors), w')"
    and a: "api_get_metric paris_only with_key (Some ''TEMPERATURE'') (Some ''Paris'') 0 =
               (if results = [] \<and> errors \<noteq> []
                then (Inl (HTTPException 502 (Errors errors)), w')
                else (Inr (results, errors), w'))"
    by blast
  from q have "results = ?R \<and> errors = [] \<and> w' = 1"
    unfolding l paris_clean paris_loop by simp
  with a have "api_get_metric paris_only with_key (Some ''TEMPERATURE'') (Some ''Paris'') 0 =
       (Inr (?R, []), 1)"
    by simp
  with h show ?thesis by simp
qed

end
